theory Spec2Isabelle
  imports Main
begin

section \<open>JavaScript strings and regular expressions\<close>

text \<open>
  A JavaScript string is a sequence of UTF-16 code units; a code unit is modelled by
  its number. The functions of \<^verbatim>\<open>parseChessNotation.ts\<close> work on strings with
  \<^verbatim>\<open>replace\<close>, \<^verbatim>\<open>test\<close>, \<^verbatim>\<open>split\<close> and \<^verbatim>\<open>trim\<close>; this section gives
  these operations with the ECMAScript backtracking semantics.
\<close>

type_synonym jsstring = "nat list"

definition js :: "string \<Rightarrow> jsstring" where
  "js s = map of_char s"

text \<open>The class \<^verbatim>\<open>\s\<close>, which is also what \<^verbatim>\<open>trim\<close> removes: WhiteSpace and LineTerminator.\<close>

definition isSpace :: "nat \<Rightarrow> bool" where
  "isSpace c = (c = 9 \<or> c = 10 \<or> c = 11 \<or> c = 12 \<or> c = 13 \<or> c = 32 \<or> c = 160
     \<or> c = 5760 \<or> (8192 \<le> c \<and> c \<le> 8202) \<or> c = 8232 \<or> c = 8233 \<or> c = 8239
     \<or> c = 8287 \<or> c = 12288 \<or> c = 65279)"

definition isDigit :: "nat \<Rightarrow> bool" where
  "isDigit c = (48 \<le> c \<and> c \<le> 57)"

definition isUpper :: "nat \<Rightarrow> bool" where
  "isUpper c = (65 \<le> c \<and> c \<le> 90)"

definition isLower :: "nat \<Rightarrow> bool" where
  "isLower c = (97 \<le> c \<and> c \<le> 122)"

text \<open>The class \<^verbatim>\<open>\w\<close>, which decides the assertion \<^verbatim>\<open>\b\<close>.\<close>

definition isWordChar :: "nat \<Rightarrow> bool" where
  "isWordChar c = (isUpper c \<or> isLower c \<or> isDigit c \<or> c = 95)"

text \<open>
  \<open>ci m c\<close>: code unit \<open>c\<close> matches the pattern character \<open>m\<close> under the flag
  \<^verbatim>\<open>i\<close>. Without the flag \<^verbatim>\<open>u\<close> two code units match when their upper-case
  forms agree, and a code unit outside ASCII never folds onto an ASCII one. The pattern
  characters of this program are ASCII and the Cyrillic capital O (U+041E), which is the
  upper-case form of two code units: the small letter U+043E and the small letter narrow o
  U+1C82.
\<close>

definition ci :: "nat \<Rightarrow> nat \<Rightarrow> bool" where
  "ci m c = (c = m \<or> (isUpper m \<and> c = m + 32) \<or> (isLower m \<and> c + 32 = m)
     \<or> (m = 1054 \<and> (c = 1086 \<or> c = 7298)) \<or> (m = 1086 \<and> (c = 1054 \<or> c = 7298))
     \<or> (m = 7298 \<and> (c = 1054 \<or> c = 1086)))"

datatype rx =
    Cls "nat \<Rightarrow> bool"
  | Eps
  | Seq rx rx
  | Alt rx rx
  | Opt rx
  | Star rx
  | WordB
  | Bol
  | Eol

text \<open>A matcher state: the code unit before the current position, and the rest of the input.\<close>

type_synonym mstate = "nat option \<times> jsstring"

definition wordBefore :: "nat option \<Rightarrow> bool" where
  "wordBefore p = (case p of None \<Rightarrow> False | Some c \<Rightarrow> isWordChar c)"

definition wordAfter :: "jsstring \<Rightarrow> bool" where
  "wordAfter s = (case s of [] \<Rightarrow> False | c # _ \<Rightarrow> isWordChar c)"

text \<open>
  \<open>ends r s\<close> lists the states in which a match of \<open>r\<close> started in \<open>s\<close> can end,
  in the order in which the backtracking matcher tries them: a quantifier is greedy, an
  alternative is tried left to right, and an iteration that consumes nothing is given up.
\<close>

function ends :: "rx \<Rightarrow> mstate \<Rightarrow> mstate list" where
  "ends (Cls P) (p, []) = []"
| "ends (Cls P) (p, c # cs) = (if P c then [(Some c, cs)] else [])"
| "ends Eps s = [s]"
| "ends (Seq a b) s = concat (map (ends b) (ends a s))"
| "ends (Alt a b) s = ends a s @ ends b s"
| "ends (Opt a) s = filter (\<lambda>e. length (snd e) < length (snd s)) (ends a s) @ [s]"
| "ends (Star a) s =
     concat (map (\<lambda>e. if length (snd e) < length (snd s) then ends (Star a) e else [])
                 (ends a s)) @ [s]"
| "ends WordB (p, cs) = (if wordBefore p \<noteq> wordAfter cs then [(p, cs)] else [])"
| "ends Bol (p, cs) = (if p = None then [(p, cs)] else [])"
| "ends Eol (p, cs) = (if cs = [] then [(p, cs)] else [])"
  by pat_completeness auto
termination
  by (relation "inv_image (less_than <*lex*> less_than) (\<lambda>(r, s). (size r, length (snd s)))")
     auto

declare ends.simps(7) [simp del]

text \<open>The length of the first match of \<open>r\<close> at the current position, if there is one.\<close>

definition match_at :: "rx \<Rightarrow> nat option \<Rightarrow> jsstring \<Rightarrow> nat option" where
  "match_at r p s = (case ends r (p, s) of [] \<Rightarrow> None | e # _ \<Rightarrow> Some (length s - length (snd e)))"


text \<open>
  \<^verbatim>\<open>String.prototype.replace\<close> with a regular expression that has the flag \<^verbatim>\<open>g\<close>:
  matches are looked for from left to right, each from the end of the one before; the
  replacement text is a function of the matched text (so that a reference \<^verbatim>\<open>$1\<close> can
  be written); after a match of no code unit the search moves on by one code unit.
\<close>

function replace_g :: "rx \<Rightarrow> (jsstring \<Rightarrow> jsstring) \<Rightarrow> nat option \<Rightarrow> jsstring \<Rightarrow> jsstring" where
  "replace_g r f p [] = (case match_at r p [] of None \<Rightarrow> [] | Some n \<Rightarrow> f [])"
| "replace_g r f p (c # cs) =
     (case match_at r p (c # cs) of
        None \<Rightarrow> c # replace_g r f (Some c) cs
      | Some n \<Rightarrow>
          if n = 0 then f [] @ c # replace_g r f (Some c) cs
          else f (take n (c # cs)) @ replace_g r f (Some (last (take n (c # cs)))) (drop n (c # cs)))"
  by pat_completeness auto
termination
  by (relation "measure (\<lambda>(r, f, p, s). length s)") auto

definition replaceAll :: "rx \<Rightarrow> jsstring \<Rightarrow> jsstring \<Rightarrow> jsstring" where
  "replaceAll r t s = replace_g r (\<lambda>_. t) None s"

text \<open>The same without the flag \<^verbatim>\<open>g\<close>: only the first match is replaced.\<close>

fun replace_1 :: "rx \<Rightarrow> (jsstring \<Rightarrow> jsstring) \<Rightarrow> nat option \<Rightarrow> jsstring \<Rightarrow> jsstring" where
  "replace_1 r f p [] = (case match_at r p [] of None \<Rightarrow> [] | Some n \<Rightarrow> f [])"
| "replace_1 r f p (c # cs) =
     (case match_at r p (c # cs) of
        None \<Rightarrow> c # replace_1 r f (Some c) cs
      | Some n \<Rightarrow> f (take n (c # cs)) @ drop n (c # cs))"

text \<open>\<^verbatim>\<open>RegExp.prototype.test\<close> without flags \<^verbatim>\<open>g\<close> or \<^verbatim>\<open>y\<close>: is there a match anywhere.\<close>

fun search :: "rx \<Rightarrow> nat option \<Rightarrow> jsstring \<Rightarrow> bool" where
  "search r p [] = (match_at r p [] \<noteq> None)"
| "search r p (c # cs) = (match_at r p (c # cs) \<noteq> None \<or> search r (Some c) cs)"

definition test :: "rx \<Rightarrow> jsstring \<Rightarrow> bool" where
  "test r s = search r None s"

text \<open>\<^verbatim>\<open>trim\<close>, \<^verbatim>\<open>trimEnd\<close>.\<close>

definition trimStart :: "jsstring \<Rightarrow> jsstring" where
  "trimStart s = dropWhile isSpace s"

definition trimEnd :: "jsstring \<Rightarrow> jsstring" where
  "trimEnd s = rev (dropWhile isSpace (rev s))"

definition trim :: "jsstring \<Rightarrow> jsstring" where
  "trim s = trimEnd (trimStart s)"

text \<open>
  \<^verbatim>\<open>String.prototype.split\<close> with a regular expression and no limit. \<open>cur\<close> is the
  piece collected since the last separator. A separator is looked for at every position
  but the end of the string, and a match that ends where the piece starts is passed over.
\<close>

function split_from :: "rx \<Rightarrow> nat option \<Rightarrow> jsstring \<Rightarrow> jsstring \<Rightarrow> jsstring list" where
  "split_from r p cur [] = [cur]"
| "split_from r p cur (c # cs) =
     (case match_at r p (c # cs) of
        None \<Rightarrow> split_from r (Some c) (cur @ [c]) cs
      | Some n \<Rightarrow>
          if n = 0 \<and> cur = [] then split_from r (Some c) (cur @ [c]) cs
          else if n = 0 then cur # split_from r p [] (c # cs)
          else cur # split_from r (Some (last (take n (c # cs)))) [] (drop n (c # cs)))"
  by pat_completeness auto
termination
  by (relation "measure (\<lambda>(r, p, cur, s). 2 * length s + (if cur = [] then 0 else 1))")
     (auto simp: match_at_def split: list.splits)

definition split :: "rx \<Rightarrow> jsstring \<Rightarrow> jsstring list" where
  "split r s = (if s = [] then (if match_at r None [] = None then [[]] else [])
                else split_from r None [] s)"

subsection \<open>Pattern syntax\<close>

definition ch :: "char \<Rightarrow> rx" where
  "ch c = Cls (\<lambda>x. x = of_char c)"

definition chi :: "nat \<Rightarrow> rx" where
  "chi m = Cls (ci m)"

definition oneOf :: "string \<Rightarrow> rx" where
  "oneOf cs = Cls (\<lambda>x. x \<in> set (js cs))"

definition oneOfi :: "jsstring \<Rightarrow> rx" where
  "oneOfi ms = Cls (\<lambda>x. list_ex (\<lambda>m. ci m x) ms)"

definition noneOf :: "string \<Rightarrow> rx" where
  "noneOf cs = Cls (\<lambda>x. x \<notin> set (js cs))"

definition between :: "char \<Rightarrow> char \<Rightarrow> rx" where
  "between a b = Cls (\<lambda>x. of_char a \<le> x \<and> x \<le> of_char b)"

text \<open>A range of lower-case letters under the flag \<^verbatim>\<open>i\<close> also matches the upper-case ones.\<close>

definition betweeni :: "char \<Rightarrow> char \<Rightarrow> rx" where
  "betweeni a b = Cls (\<lambda>x. (of_char a \<le> x \<and> x \<le> of_char b) \<or> (of_char a \<le> x + 32 \<and> x + 32 \<le> of_char b \<and> isUpper x))"

definition space :: rx where
  "space = Cls isSpace"

definition digit :: rx where
  "digit = Cls isDigit"

definition Plus :: "rx \<Rightarrow> rx" where
  "Plus r = Seq r (Star r)"

fun seqs :: "rx list \<Rightarrow> rx" where
  "seqs [] = Eps"
| "seqs [r] = r"
| "seqs (r # rs) = Seq r (seqs rs)"

definition lit :: "string \<Rightarrow> rx" where
  "lit cs = seqs (map ch cs)"

definition liti :: "string \<Rightarrow> rx" where
  "liti cs = seqs (map (\<lambda>c. chi (of_char c)) cs)"


text \<open>The code unit before the position reached after reading \<open>u\<close>.\<close>

definition lastOpt :: "nat option \<Rightarrow> jsstring \<Rightarrow> nat option" where
  "lastOpt p u = (if u = [] then p else Some (last u))"

subsection \<open>Facts about matching\<close>

text \<open>A lower bound on the number of code units a match of \<open>r\<close> consumes.\<close>

fun minlen :: "rx \<Rightarrow> nat" where
  "minlen (Cls P) = 1"
| "minlen (Seq a b) = minlen a + minlen b"
| "minlen (Alt a b) = min (minlen a) (minlen b)"
| "minlen _ = 0"

lemma ends_minlen: "e \<in> set (ends r s) \<Longrightarrow> length (snd e) + minlen r \<le> length (snd s)"
proof (induction r s arbitrary: e rule: ends.induct)
  case (4 a b s)
  from "4.prems" obtain m where m: "m \<in> set (ends a s)" and e: "e \<in> set (ends b m)"
    by auto
  from "4.IH"(1)[OF m] "4.IH"(2)[OF m e] show ?case by simp
next
  case (5 a b s)
  then show ?case by (fastforce simp: min_def)
next
  case (6 a s)
  then show ?case by auto
next
  case (7 a s)
  from "7.prems" consider "e = s"
    | m where "m \<in> set (ends a s)" "length (snd m) < length (snd s)" "e \<in> set (ends (Star a) m)"
    by (subst (asm) ends.simps(7)) (auto split: if_splits)
  then show ?case
  proof cases
    case 1 then show ?thesis by simp
  next
    case 2
    from "7.IH"(2)[OF 2(1) 2(2) 2(3)] 2(2) show ?thesis by simp
  qed
qed (auto split: if_splits)

lemma match_at_bounds: "match_at r p s = Some n \<Longrightarrow> minlen r \<le> n \<and> n \<le> length s"
proof -
  assume "match_at r p s = Some n"
  then obtain e es where e: "ends r (p, s) = e # es" and n: "n = length s - length (snd e)"
    by (auto simp: match_at_def split: list.splits)
  from e have "e \<in> set (ends r (p, s))" by simp
  from ends_minlen[OF this] n show ?thesis by simp
qed

lemma replace_g_shrinks:
  assumes f: "\<And>x. length (f x) \<le> 1" and r: "2 \<le> minlen r"
  shows "length (replace_g r f p s) \<le> length s \<and>
         (replace_g r f p s \<noteq> s \<longrightarrow> length (replace_g r f p s) < length s)"
  using assms
proof (induction r f p s rule: replace_g.induct)
  case (1 r f p)
  have "match_at r p [] = None"
  proof (cases "match_at r p []")
    case (Some n)
    from match_at_bounds[OF Some] "1.prems"(2) show ?thesis by simp
  qed simp
  then show ?case by simp
next
  case (2 r f p c cs)
  show ?case
  proof (cases "match_at r p (c # cs)")
    case None
    with "2.IH"(1)[OF None "2.prems"] show ?thesis by simp
  next
    case (Some n)
    from match_at_bounds[OF Some] "2.prems"(2) have n: "2 \<le> n" "n \<le> length (c # cs)" by auto
    then have n0: "n \<noteq> 0" by simp
    let ?rest = "replace_g r f (Some (last (take n (c # cs)))) (drop n (c # cs))"
    from "2.IH"(3)[OF Some n0 "2.prems"] have "length ?rest \<le> length (drop n (c # cs))" by simp
    moreover have "length (f (take n (c # cs))) \<le> 1" by (rule "2.prems"(1))
    moreover have "replace_g r f p (c # cs) = f (take n (c # cs)) @ ?rest"
      using Some n0 by simp
    ultimately have "length (replace_g r f p (c # cs)) < length (c # cs)"
      using n by simp
    then show ?thesis by simp
  qed
qed

text \<open>
  \<open>firstOk r c\<close>: a match of \<open>r\<close> that consumes something may start with the code unit
  \<open>c\<close>. Where no code unit of a text can start a match, a replacement leaves the text alone.
\<close>

fun firstOk :: "rx \<Rightarrow> nat \<Rightarrow> bool" where
  "firstOk (Cls P) c = P c"
| "firstOk (Seq a b) c = (firstOk a c \<or> (minlen a = 0 \<and> firstOk b c))"
| "firstOk (Alt a b) c = (firstOk a c \<or> firstOk b c)"
| "firstOk (Opt a) c = firstOk a c"
| "firstOk (Star a) c = firstOk a c"
| "firstOk _ c = False"

lemma ends_stuck:
  "e \<in> set (ends r s) \<Longrightarrow> snd s = c # cs \<Longrightarrow> \<not> firstOk r c \<Longrightarrow> e = s"
proof (induction r s arbitrary: e rule: ends.induct)
  case (4 a b s)
  from "4.prems"(1) obtain m where m: "m \<in> set (ends a s)" and e: "e \<in> set (ends b m)"
    by auto
  from "4.prems"(3) have na: "\<not> firstOk a c" by simp
  from "4.IH"(1)[OF m "4.prems"(2) na] have ms: "m = s" .
  from ends_minlen[OF m] ms have "minlen a = 0" by simp
  with "4.prems"(3) have nb: "\<not> firstOk b c" by simp
  from "4.IH"(2)[OF m e] "4.prems"(2) nb ms show ?case by simp
next
  case (7 a s)
  from "7.prems"(1) consider "e = s"
    | m where "m \<in> set (ends a s)" "length (snd m) < length (snd s)" "e \<in> set (ends (Star a) m)"
    by (subst (asm) ends.simps(7)) (auto split: if_splits)
  then show ?case
  proof cases
    case 1 then show ?thesis .
  next
    case 2
    from "7.prems"(3) have "\<not> firstOk a c" by simp
    from "7.IH"(1)[OF 2(1) "7.prems"(2) this] 2(2) show ?thesis by simp
  qed
qed (auto split: if_splits)

lemma ends_none:
  assumes "0 < minlen r" "\<not> firstOk r c"
  shows "ends r (p, c # cs) = []"
proof (rule ccontr)
  assume "ends r (p, c # cs) \<noteq> []"
  then obtain e where e: "e \<in> set (ends r (p, c # cs))" by (cases "ends r (p, c # cs)") auto
  from ends_stuck[OF e _ assms(2)] have "e = (p, c # cs)" by simp
  with ends_minlen[OF e] assms(1) show False by simp
qed

lemma ends_none_Nil: "0 < minlen r \<Longrightarrow> ends r (p, []) = []"
proof (rule ccontr)
  assume m: "0 < minlen r" and "ends r (p, []) \<noteq> []"
  then obtain e where e: "e \<in> set (ends r (p, []))" by (cases "ends r (p, [])") auto
  from ends_minlen[OF e] m show False by simp
qed

lemma match_at_none: "0 < minlen r \<Longrightarrow> \<not> firstOk r c \<Longrightarrow> match_at r p (c # cs) = None"
  by (simp add: match_at_def ends_none)

lemma match_at_Nil: "0 < minlen r \<Longrightarrow> match_at r p [] = None"
  by (simp add: match_at_def ends_none_Nil)

lemma replace_g_no_match: "\<not> search r p s \<Longrightarrow> replace_g r f p s = s"
  by (induction s arbitrary: p) auto

lemma search_none:
  "0 < minlen r \<Longrightarrow> \<forall>c\<in>set s. \<not> firstOk r c \<Longrightarrow> \<not> search r p s"
  by (induction s arbitrary: p) (auto simp: match_at_none match_at_Nil)

lemma replaceAll_untouched:
  "0 < minlen r \<Longrightarrow> \<forall>c\<in>set s. \<not> firstOk r c \<Longrightarrow> replaceAll r t s = s"
  by (simp add: replaceAll_def replace_g_no_match search_none)

lemma replaceAll_Cls: "replaceAll (Cls P) [d] s = map (\<lambda>c. if P c then d else c) s"
proof -
  have "replace_g (Cls P) (\<lambda>_. [d]) p s = map (\<lambda>c. if P c then d else c) s" for p
    by (induction s arbitrary: p) (auto simp: match_at_def)
  then show ?thesis by (simp add: replaceAll_def)
qed

section \<open>Normalizer and metadata stripper\<close>

text \<open>Code units that the patterns name by escape: NBSP, CR, LF, the Cyrillic capital O.\<close>

definition nbsp :: nat where "nbsp = 160"
definition cyrO :: nat where "cyrO = 1054"

text \<open>
  \<^verbatim>\<open>cleanPgnInput\<close>: the patterns are \<^verbatim>\<open>/```pgn\s*/gi\<close>, \<^verbatim>\<open>/```/g\<close>, \<^verbatim>\<open>/\*\*/g\<close>,
  \<^verbatim>\<open>/\u00A0/g\<close> and \<^verbatim>\<open>/\r/g\<close>. The empty string is falsy and is returned at once.
\<close>

definition cleanPgnInput :: "jsstring \<Rightarrow> jsstring" where
  "cleanPgnInput input =
     (if input = [] then []
      else trim
        (replaceAll (Cls (\<lambda>x. x = 13)) [10]
        (replaceAll (Cls (\<lambda>x. x = nbsp)) (js '' '')
        (replaceAll (lit ''**'') []
        (replaceAll (lit ''```'') []
        (replaceAll (Seq (liti ''```pgn'') (Star space)) [] input))))))"

text \<open>The class of \<^verbatim>\<open>o\<close> and the Cyrillic capital O (U+041E) under the flag \<^verbatim>\<open>i\<close>; the six and four patterns of \<^verbatim>\<open>normalizeCastling\<close>.\<close>

definition oLike :: rx where
  "oLike = oneOfi [of_char CHR ''o'', cyrO]"

definition dash :: rx where
  "dash = seqs [Star space, ch CHR ''-'', Star space]"

definition normalizeCastling :: "jsstring \<Rightarrow> jsstring" where
  "normalizeCastling text =
     (let normalized =
        replaceAll (seqs [WordB, ch CHR ''O'', dash, ch CHR ''O'', WordB]) (js ''O-O'')
       (replaceAll (seqs [WordB, ch CHR ''O'', dash, ch CHR ''O'', dash, ch CHR ''O'', WordB]) (js ''O-O-O'')
       (replaceAll (seqs [oLike, dash, oLike]) (js ''O-O'')
       (replaceAll (seqs [oLike, dash, oLike, dash, oLike]) (js ''O-O-O'')
       (replaceAll (seqs [ch CHR ''0'', dash, ch CHR ''0'']) (js ''O-O'')
       (replaceAll (seqs [ch CHR ''0'', dash, ch CHR ''0'', dash, ch CHR ''0'']) (js ''O-O-O'') text)))))
      in
        replaceAll (seqs [WordB, lit ''0-0-0'', WordB]) (js ''O-O-O'')
       (replaceAll (seqs [WordB, lit ''0-0'', WordB]) (js ''O-O'')
       (replaceAll (seqs [WordB, lit ''000'', WordB]) (js ''O-O-O'')
       (replaceAll (seqs [WordB, lit ''00'', WordB]) (js ''O-O'') normalized))))"

text \<open>The composed normalization of the raw text: cleanup, then castling.\<close>

definition normalizeText :: "jsstring \<Rightarrow> jsstring" where
  "normalizeText x = normalizeCastling (cleanPgnInput x)"








text \<open>
  \<^verbatim>\<open>stripPgnMetadata\<close>. The patterns are \<^verbatim>\<open>/\[[^\]]*\]/g\<close>, \<^verbatim>\<open>/\{[^}]*\}/g\<close>,
  \<^verbatim>\<open>/;[^\n]*/g\<close>, \<^verbatim>\<open>/\([^()]*\)/g\<close> (repeated until nothing changes) and
  \<^verbatim>\<open>/\s+/g\<close>.
\<close>

definition tagRx :: rx where
  "tagRx = seqs [ch CHR ''['', Star (noneOf '']''), ch CHR '']'']"

definition braceRx :: rx where
  "braceRx = seqs [ch CHR ''{'', Star (noneOf ''}''), ch CHR ''}'']"

definition semiRx :: rx where
  "semiRx = Seq (ch CHR '';'') (Star (Cls (\<lambda>x. x \<noteq> 10)))"

definition parenRx :: rx where
  "parenRx = seqs [ch CHR ''('', Star (noneOf ''()''), ch CHR '')'']"

definition stripParensOnce :: "jsstring \<Rightarrow> jsstring" where
  "stripParensOnce s = replaceAll parenRx (js '' '') s"


text \<open>
  The loop \<^verbatim>\<open>do { previous = sanitized; sanitized = ... } while (sanitized !== previous)\<close>.
  It ends because a pass that changes the text makes it shorter.
\<close>

function stripParens :: "jsstring \<Rightarrow> jsstring" where
  "stripParens previous =
     (if stripParensOnce previous \<noteq> previous then stripParens (stripParensOnce previous)
      else stripParensOnce previous)"
  by pat_completeness auto
termination
proof (relation "measure length")
  fix previous :: jsstring
  assume "stripParensOnce previous \<noteq> previous"
  moreover have "2 \<le> minlen parenRx"
    by (simp add: parenRx_def ch_def noneOf_def)
  ultimately have "length (stripParensOnce previous) < length previous"
    using replace_g_shrinks[of "\<lambda>_. js '' ''" parenRx None previous]
    by (simp add: stripParensOnce_def replaceAll_def js_def)
  then show "(stripParensOnce previous, previous) \<in> measure length" by simp
qed simp

declare stripParens.simps [simp del]

definition stripPgnMetadata :: "jsstring \<Rightarrow> jsstring" where
  "stripPgnMetadata text =
     (if text = [] then []
      else trim (replaceAll (Plus space) (js '' '')
        (stripParens
          (replaceAll semiRx (js '' '')
          (replaceAll braceRx (js '' '')
          (replaceAll tagRx (js '' '') text))))))"

text \<open>
  What the stripper does to a text without tags, comments and variations, said without
  patterns: \<open>collapse\<close> replaces every run of white space by one space; a text is \<open>tidy\<close>
  when its white space is single spaces between other code units.
\<close>

function collapse :: "jsstring \<Rightarrow> jsstring" where
  "collapse [] = []"
| "collapse (c # cs) =
     (if isSpace c then 32 # collapse (dropWhile isSpace cs) else c # collapse cs)"
  by pat_completeness auto
termination
  by (relation "measure length") (auto simp: length_dropWhile_le less_Suc_eq_le)

fun singleSpaced :: "jsstring \<Rightarrow> bool" where
  "singleSpaced [] = True"
| "singleSpaced [c] = (\<not> isSpace c)"
| "singleSpaced (a # b # cs) = ((isSpace a \<longrightarrow> a = 32 \<and> \<not> isSpace b) \<and> singleSpaced (b # cs))"

definition tidy :: "jsstring \<Rightarrow> bool" where
  "tidy s = (singleSpaced s \<and> (s = [] \<or> \<not> isSpace (hd s)))"

section \<open>Move token validator\<close>

text \<open>
  \<^verbatim>\<open>isValidMove\<close>. The patterns are \<^verbatim>\<open>/[+#?!]/g\<close>, \<^verbatim>\<open>/^(O-O-O|O-O)$/i\<close>,
  \<^verbatim>\<open>/[a-h][1-8]/\<close> and
  \<^verbatim>\<open>/^[NBRQK]?[a-h]?[1-8]?x?[a-h][1-8](?:=[NBRQ])?$/i\<close>.
\<close>

definition castlingRx :: rx where
  "castlingRx = seqs [Bol, Alt (liti ''O-O-O'') (liti ''O-O''), Eol]"

definition squareRx :: rx where
  "squareRx = Seq (between CHR ''a'' CHR ''h'') (between CHR ''1'' CHR ''8'')"

definition validPattern :: rx where
  "validPattern = seqs [Bol, Opt (oneOfi (js ''NBRQK'')), Opt (betweeni CHR ''a'' CHR ''h''),
     Opt (between CHR ''1'' CHR ''8''), Opt (chi (of_char CHR ''x'')),
     betweeni CHR ''a'' CHR ''h'', between CHR ''1'' CHR ''8'',
     Opt (Seq (ch CHR ''='') (oneOfi (js ''NBRQ''))), Eol]"

definition isValidMove :: "jsstring \<Rightarrow> bool" where
  "isValidMove move =
     (if move = [] \<or> length move < 2 then False
      else let cleanedMove = trim (replaceAll (oneOf ''+#?!'') [] move);
               normalizedMove = normalizeCastling cleanedMove
           in if test castlingRx normalizedMove then True
              else if \<not> test squareRx normalizedMove then False
              else test validPattern normalizedMove)"


subsection \<open>The accepted tokens, stated without patterns\<close>

text \<open>
  The sets of code units that the classes of the patterns accept, the shape
  \<^verbatim>\<open>[piece]?[file]?[rank]?x?[file][rank](=promotion)?\<close> as a decomposition of the
  token, and the deletion of the marks \<^verbatim>\<open>+ # ? !\<close>. Code unit 45 is the hyphen, 61 the
  equals sign, 79 and 111 the letter O in its two cases, 120 and 88 the letter x.
\<close>

definition isO :: "nat \<Rightarrow> bool" where
  "isO c = (c = 79 \<or> c = 111)"

definition castlingCI :: "jsstring \<Rightarrow> bool" where
  "castlingCI s =
     ((\<exists>a b. s = [a, 45, b] \<and> isO a \<and> isO b)
      \<or> (\<exists>a b c. s = [a, 45, b, 45, c] \<and> isO a \<and> isO b \<and> isO c))"

definition isFile :: "nat \<Rightarrow> bool" where
  "isFile c = (97 \<le> c \<and> c \<le> 104)"

definition isRank :: "nat \<Rightarrow> bool" where
  "isRank c = (49 \<le> c \<and> c \<le> 56)"

definition isFileCI :: "nat \<Rightarrow> bool" where
  "isFileCI c = (isFile c \<or> (65 \<le> c \<and> c \<le> 72))"

definition isPieceCI :: "nat \<Rightarrow> bool" where
  "isPieceCI c = (c \<in> set (js ''NBRQKnbrqk''))"

definition isCaptureCI :: "nat \<Rightarrow> bool" where
  "isCaptureCI c = (c = 120 \<or> c = 88)"

definition isPromotionCI :: "nat \<Rightarrow> bool" where
  "isPromotionCI c = (c \<in> set (js ''NBRQnbrq''))"

definition opt1 :: "(nat \<Rightarrow> bool) \<Rightarrow> jsstring \<Rightarrow> bool" where
  "opt1 P s = (s = [] \<or> (\<exists>c. s = [c] \<and> P c))"

definition moveShape :: "jsstring \<Rightarrow> bool" where
  "moveShape s =
     (\<exists>pc fl rk cap f r pr.
        s = pc @ fl @ rk @ cap @ [f, r] @ pr
        \<and> opt1 isPieceCI pc \<and> opt1 isFileCI fl \<and> opt1 isRank rk \<and> opt1 isCaptureCI cap
        \<and> isFileCI f \<and> isRank r
        \<and> (pr = [] \<or> (\<exists>c. pr = [61, c] \<and> isPromotionCI c)))"

definition hasSquare :: "jsstring \<Rightarrow> bool" where
  "hasSquare s = (\<exists>u f r v. s = u @ f # r # v \<and> isFile f \<and> isRank r)"

definition stripMarks :: "jsstring \<Rightarrow> jsstring" where
  "stripMarks m = filter (\<lambda>x. x \<notin> set (js ''+#?!'')) m"


text \<open>
  The language of a pattern built from classes, sequence, alternative and option only, and
  the patterns that match from a position exactly when the rest of the subject is in a given
  language.
\<close>

fun plain :: "rx \<Rightarrow> bool" where
  "plain (Cls P) = True"
| "plain Eps = True"
| "plain (Seq a b) = (plain a \<and> plain b)"
| "plain (Alt a b) = (plain a \<and> plain b)"
| "plain (Opt a) = plain a"
| "plain _ = False"

definition cat :: "jsstring set \<Rightarrow> jsstring set \<Rightarrow> jsstring set" where
  "cat A B = {u @ v | u v. u \<in> A \<and> v \<in> B}"

fun lang :: "rx \<Rightarrow> jsstring set" where
  "lang (Cls P) = {[c] | c. P c}"
| "lang Eps = {[]}"
| "lang (Seq a b) = cat (lang a) (lang b)"
| "lang (Alt a b) = lang a \<union> lang b"
| "lang (Opt a) = insert [] (lang a)"
| "lang _ = {}"

definition whole :: "rx \<Rightarrow> jsstring set \<Rightarrow> bool" where
  "whole r L = (\<forall>q v. (ends r (q, v) \<noteq> []) = (v \<in> L))"


definition shapeLang :: "jsstring set" where
  "shapeLang =
     cat {s. opt1 isPieceCI s} (cat {s. opt1 isFileCI s} (cat {s. opt1 isRank s}
       (cat {s. opt1 isCaptureCI s} (cat {[c] |c. isFileCI c} (cat {[c] |c. isRank c}
         (insert [] (cat {[61]} {[c] |c. isPromotionCI c})))))))"


section \<open>The legal-move oracle and the replay\<close>

text \<open>
  The chess rules engine (\<^verbatim>\<open>chess.js\<close>) is not part of the program; it is a parameter.
  \<open>'p\<close> is the state of one \<^verbatim>\<open>Chess\<close> object.
  \<^item> \<open>initial\<close>: the state after \<^verbatim>\<open>new Chess()\<close>;
  \<^item> \<open>move p t\<close>: the state after \<^verbatim>\<open>move(t)\<close> in state \<open>p\<close>, or \<open>None\<close> when the
    call throws or returns a falsy value (the state is then left as it was);
  \<^item> \<open>moves p\<close>: the result of \<^verbatim>\<open>moves()\<close>, \<open>fen p\<close> the result of \<^verbatim>\<open>fen()\<close>; both
    calls only read the object;
  \<^item> \<open>fromFen f\<close>: the state after \<^verbatim>\<open>new Chess(f)\<close>, or \<open>None\<close> when the constructor throws;
  \<^item> \<open>loadPgn t\<close>: what \<^verbatim>\<open>history()\<close> returns after \<^verbatim>\<open>loadPgn(t)\<close> on a new object,
    or \<open>None\<close> when \<^verbatim>\<open>loadPgn\<close> throws.
\<close>

record 'p engine =
  initial :: 'p
  move :: "'p \<Rightarrow> jsstring \<Rightarrow> 'p option"
  moves :: "'p \<Rightarrow> jsstring list"
  fen :: "'p \<Rightarrow> jsstring"
  fromFen :: "jsstring \<Rightarrow> 'p option"
  loadPgn :: "jsstring \<Rightarrow> jsstring list option"

text \<open>
  \<^verbatim>\<open>Chess\<close> objects are mutable and handed around by reference. The store lists the
  state of every object made so far; a reference is an index into it.
\<close>

type_synonym 'p store = "'p list"

definition newChess :: "'p \<Rightarrow> 'p store \<Rightarrow> nat \<times> 'p store" where
  "newChess p h = (length h, h @ [p])"

definition chessMove :: "'p engine \<Rightarrow> nat \<Rightarrow> jsstring \<Rightarrow> 'p store \<Rightarrow> bool \<times> 'p store" where
  "chessMove orc g t h =
     (case move orc (h ! g) t of None \<Rightarrow> (False, h) | Some p' \<Rightarrow> (True, h[g := p']))"

text \<open>
  Decimal digits of a natural number: what a template literal prints for an array index
  or a counter, which stay below \<open>2\<^sup>3\<^sup>2\<close>.
\<close>

fun showNat :: "nat \<Rightarrow> jsstring" where
  "showNat n = (if n < 10 then [48 + n] else showNat (n div 10) @ [48 + n mod 10])"

declare showNat.simps [simp del]

definition digitsValue :: "jsstring \<Rightarrow> nat" where
  "digitsValue ds = foldl (\<lambda>n d. 10 * n + (d - 48)) 0 ds"

text \<open>
  The value of \<^verbatim>\<open>currentMoveNumber\<close> is a Number, a double: \<^verbatim>\<open>parseInt\<close> returns the
  double nearest to the integer that the digits denote. \<open>Finite v\<close> is the double whose value
  is the natural number \<open>v\<close>. \<open>roundTo e n\<close> rounds \<open>n\<close> to a multiple of \<open>2\<^sup>e\<close>, a tie to
  the even multiple; an integer of more than 53 bits keeps its 53 leading bits, and a result
  of \<open>2\<^sup>1\<^sup>0\<^sup>2\<^sup>4\<close> or more is \<^verbatim>\<open>Infinity\<close>. (For more than 20 significant digits ECMAScript
  lets an implementation round the digits after the 20th first; the exact rounding given here
  is what V8 computes.) The argument here is a token that matches \<^verbatim>\<open>/^\d+\.$/\<close>, which
  begins with a decimal digit and has no sign, white space or radix prefix; without a leading
  digit the result is \<^verbatim>\<open>NaN\<close>.
\<close>

datatype number = Finite nat | Infinity | NaN

fun bitlen :: "nat \<Rightarrow> nat" where
  "bitlen n = (if n = 0 then 0 else Suc (bitlen (n div 2)))"

declare bitlen.simps [simp del]

definition roundTo :: "nat \<Rightarrow> nat \<Rightarrow> nat" where
  "roundTo e n =
     (let q = n div 2 ^ e; r = n mod 2 ^ e
      in (if 2 ^ e < 2 * r \<or> (2 * r = 2 ^ e \<and> odd q) then q + 1 else q) * 2 ^ e)"

definition toNumber :: "nat \<Rightarrow> number" where
  "toNumber n = (let v = roundTo (bitlen n - 53) n in if v < 2 ^ 1024 then Finite v else Infinity)"

definition parseInt :: "jsstring \<Rightarrow> number" where
  "parseInt s = (let ds = takeWhile isDigit s in if ds = [] then NaN else toNumber (digitsValue ds))"

text \<open>
  What a template literal prints for a Number (\<^verbatim>\<open>Number::toString\<close>): the decimal with the
  fewest significant digits that still denotes the double, the nearest one if there are
  several (the even one on a tie), followed by zeros up to 21 digits, in exponent notation
  above. \<open>pick x p\<close> is the multiple of \<open>p\<close> chosen for the double \<open>x\<close>, if one of the two
  multiples of \<open>p\<close> around \<open>x\<close> denotes \<open>x\<close>; \<open>shortest x\<close> tries the powers of ten from the
  largest down.
\<close>

definition pick :: "nat \<Rightarrow> nat \<Rightarrow> nat option" where
  "pick x p =
     (let lo = (x div p) * p; hi = lo + p;
          okLo = (toNumber lo = Finite x); okHi = (toNumber hi = Finite x)
      in if okLo \<and> okHi
         then (if x - lo < hi - x \<or> (x - lo = hi - x \<and> even (x div p)) then Some lo else Some hi)
         else if okLo then Some lo else if okHi then Some hi else None)"

fun shortestFrom :: "nat \<Rightarrow> nat \<Rightarrow> nat" where
  "shortestFrom x 0 = x"
| "shortestFrom x (Suc j) = (case pick x (10 ^ Suc j) of Some v \<Rightarrow> v | None \<Rightarrow> shortestFrom x j)"

definition shortest :: "nat \<Rightarrow> nat" where
  "shortest x = shortestFrom x (length (showNat x) - 1)"

definition showDecimal :: "nat \<Rightarrow> jsstring" where
  "showDecimal v =
     (let ds = showNat v; n = length ds
      in if n \<le> 21 then ds
         else let sig = rev (dropWhile (\<lambda>d. d = 48) (rev ds))
              in (if length sig = 1 then sig else hd sig # 46 # tl sig)
                   @ js ''e+'' @ showNat (n - 1))"

definition showNumber :: "number \<Rightarrow> jsstring" where
  "showNumber x =
     (case x of Finite v \<Rightarrow> showDecimal (shortest v)
              | Infinity \<Rightarrow> js ''Infinity''
              | NaN \<Rightarrow> js ''NaN'')"

text \<open>
  \<^verbatim>\<open>formatHistoryAsPgn\<close>. \<open>n\<close> is the move number \<^verbatim>\<open>Math.floor(i / 2) + 1\<close>; a missing
  or empty entry is falsy.
\<close>

fun segments :: "nat \<Rightarrow> jsstring list \<Rightarrow> jsstring list" where
  "segments n [] = []"
| "segments n [whiteMove] =
     (if whiteMove = [] then [] else [trimEnd (showNat n @ js ''. '' @ whiteMove)])"
| "segments n (whiteMove # blackMove # rest) =
     (if whiteMove = [] \<and> blackMove = [] then segments (n + 1) rest
      else (trimEnd (showNat n @ js ''. '' @ whiteMove)
              @ (if blackMove \<noteq> [] then js '' '' @ blackMove else []))
           # segments (n + 1) rest)"

fun joinWith :: "jsstring \<Rightarrow> jsstring list \<Rightarrow> jsstring" where
  "joinWith sep [] = []"
| "joinWith sep [x] = x"
| "joinWith sep (x # y # xs) = x @ sep @ joinWith sep (y # xs)"

definition formatHistoryAsPgn :: "jsstring list \<Rightarrow> jsstring" where
  "formatHistoryAsPgn history =
     (if history = [] then [] else trim (joinWith (js '' '') (segments 1 history)))"


text \<open>
  \<^verbatim>\<open>tryOcrCorrections(move, chess)\<close>. \<open>g\<close> is the reference \<^verbatim>\<open>chess\<close>. The function
  returns the corrected token, if any, and the store it leaves.

  A correction is a pattern, its replacement as a function of the matched text, and
  whether the pattern has the flag \<^verbatim>\<open>g\<close>: \<^verbatim>\<open>'$15'\<close> is the first (and only) group
  followed by \<^verbatim>\<open>5\<close>; in \<^verbatim>\<open>/Na(\d)/\<close> the group is what follows the two letters.
\<close>

type_synonym correction = "rx \<times> (jsstring \<Rightarrow> jsstring) \<times> bool"

definition rankFix :: "char \<Rightarrow> char \<Rightarrow> correction" where
  "rankFix a b = (Seq (between CHR ''a'' CHR ''h'') (ch a), \<lambda>m. take 1 m @ [of_char b], True)"

definition pieceFix :: "char \<Rightarrow> char \<Rightarrow> char \<Rightarrow> correction" where
  "pieceFix pc a b = (Seq (lit [pc, a]) digit, \<lambda>m. [of_char pc, of_char b] @ drop 2 m, False)"

definition fileFix :: "char \<Rightarrow> char \<Rightarrow> correction" where
  "fileFix a b = (Seq (ch a) (between CHR ''1'' CHR ''8''), \<lambda>m. of_char b # drop 1 m, False)"

definition charFix :: "char \<Rightarrow> char \<Rightarrow> correction" where
  "charFix a b = (ch a, \<lambda>m. [of_char b], False)"

definition corrections :: "correction list" where
  "corrections =
     [rankFix CHR ''6'' CHR ''5'', rankFix CHR ''5'' CHR ''6'', rankFix CHR ''3'' CHR ''4'',
      rankFix CHR ''4'' CHR ''3'', rankFix CHR ''2'' CHR ''3'', rankFix CHR ''7'' CHR ''8'',
      rankFix CHR ''8'' CHR ''7'',
      pieceFix CHR ''N'' CHR ''a'' CHR ''g'', pieceFix CHR ''N'' CHR ''g'' CHR ''a'',
      pieceFix CHR ''B'' CHR ''a'' CHR ''g'', pieceFix CHR ''B'' CHR ''g'' CHR ''a'',
      pieceFix CHR ''R'' CHR ''a'' CHR ''g'', pieceFix CHR ''R'' CHR ''g'' CHR ''a'',
      pieceFix CHR ''Q'' CHR ''a'' CHR ''g'', pieceFix CHR ''Q'' CHR ''g'' CHR ''a'',
      fileFix CHR ''a'' CHR ''g'', fileFix CHR ''g'' CHR ''a'',
      fileFix CHR ''b'' CHR ''h'', fileFix CHR ''h'' CHR ''b'',
      fileFix CHR ''c'' CHR ''e'', fileFix CHR ''e'' CHR ''c'',
      fileFix CHR ''d'' CHR ''a'',
      charFix CHR ''l'' CHR ''1'', charFix CHR ''1'' CHR ''l'']"

definition applyCorrection :: "correction \<Rightarrow> jsstring \<Rightarrow> jsstring" where
  "applyCorrection k mv =
     (case k of (r, f, global) \<Rightarrow> if global then replace_g r f None mv else replace_1 r f None mv)"

text \<open>
  The loop over \<^verbatim>\<open>corrections\<close>: a candidate that differs from the token is tried on a
  new object made from \<^verbatim>\<open>chess.fen()\<close>; an exception of the constructor or of
  \<^verbatim>\<open>move\<close> is caught and the next correction is tried.
\<close>

fun tryList :: "'p engine \<Rightarrow> correction list \<Rightarrow> jsstring \<Rightarrow> nat \<Rightarrow> 'p store
    \<Rightarrow> jsstring option \<times> 'p store" where
  "tryList orc [] mv g h = (None, h)"
| "tryList orc (k # ks) mv g h =
     (let corrected = applyCorrection k mv in
      if corrected \<noteq> mv then
        (case fromFen orc (fen orc (h ! g)) of
           None \<Rightarrow> tryList orc ks mv g h
         | Some p \<Rightarrow>
            (case newChess p h of (testChess, h1) \<Rightarrow>
              (case chessMove orc testChess corrected h1 of
                 (testMove, h2) \<Rightarrow>
                   if testMove then (Some corrected, h2) else tryList orc ks mv g h2)))
      else tryList orc ks mv g h)"

text \<open>
  The two disambiguation blocks: patterns \<^verbatim>\<open>/^[RNBQK][a-h]?[1-8]$/\<close> and
  \<^verbatim>\<open>/^[RNBQK]x[a-h][1-8]$/\<close>; \<open>ins\<close> is what stands between the inserted file or
  rank and the destination (nothing, or \<^verbatim>\<open>x\<close>).
\<close>

definition plainPieceRx :: rx where
  "plainPieceRx = seqs [Bol, oneOf ''RNBQK'', Opt (between CHR ''a'' CHR ''h''),
     between CHR ''1'' CHR ''8'', Eol]"

definition capturePieceRx :: rx where
  "capturePieceRx = seqs [Bol, oneOf ''RNBQK'', ch CHR ''x'', between CHR ''a'' CHR ''h'',
     between CHR ''1'' CHR ''8'', Eol]"

definition disambiguate :: "jsstring \<Rightarrow> jsstring \<Rightarrow> jsstring list \<Rightarrow> jsstring option" where
  "disambiguate mv ins legalMoves =
     (let piece = take 1 mv; destination = drop (length mv - 2) mv in
      case find (\<lambda>d. d \<in> set legalMoves)
                (map (\<lambda>file. piece @ [file] @ ins @ destination) (js ''abcdefgh'')) of
        Some d \<Rightarrow> Some d
      | None \<Rightarrow> find (\<lambda>d. d \<in> set legalMoves)
                (map (\<lambda>rank. piece @ [rank] @ ins @ destination) (js ''12345678'')))"

definition tryOcrCorrections :: "'p engine \<Rightarrow> jsstring \<Rightarrow> nat \<Rightarrow> 'p store
    \<Rightarrow> jsstring option \<times> 'p store" where
  "tryOcrCorrections orc mv g h =
     (case (if test plainPieceRx mv then disambiguate mv [] (moves orc (h ! g)) else None) of
        Some d \<Rightarrow> (Some d, h)
      | None \<Rightarrow>
         (case (if test capturePieceRx mv then disambiguate mv (js ''x'') (moves orc (h ! g))
                else None) of
            Some d \<Rightarrow> (Some d, h)
          | None \<Rightarrow> tryList orc corrections mv g h))"

text \<open>
  \<^verbatim>\<open>validatePgnWithDetails\<close>. The token loop: patterns \<^verbatim>\<open>/^\d+\.$/\<close> and
  \<^verbatim>\<open>/\d+\./g\<close>. The loop returns its variables as they are when it is left:
  the accepted moves, the failure text (empty when the loop ran to the end), the current
  move number and the store. \<^verbatim>\<open>testGame.move(correctedMove)\<close> stands in a \<^verbatim>\<open>catch\<close> block:
  if it throws, the exception leaves the function.
\<close>

datatype exn = MoveError

definition moveNumberRx :: rx where
  "moveNumberRx = seqs [Bol, Plus digit, ch CHR ''.'', Eol]"

definition numDotRx :: rx where
  "numDotRx = Seq (Plus digit) (ch CHR ''.'')"

fun replayTokens :: "'p engine \<Rightarrow> nat \<Rightarrow> jsstring list \<Rightarrow> number \<Rightarrow> jsstring list \<Rightarrow> 'p store
    \<Rightarrow> exn + (jsstring list \<times> jsstring \<times> number \<times> 'p store)" where
  "replayTokens orc testGame [] currentMoveNumber partialMoves h =
     Inr (partialMoves, [], currentMoveNumber, h)"
| "replayTokens orc testGame (m # ms) currentMoveNumber partialMoves h =
     (let token = trim m in
      if token = [] then replayTokens orc testGame ms currentMoveNumber partialMoves h
      else if test moveNumberRx token
        then replayTokens orc testGame ms (parseInt token) partialMoves h
      else
        let stripped = trim (replaceAll numDotRx [] token) in
        if stripped = [] then replayTokens orc testGame ms currentMoveNumber partialMoves h
        else
          let cleanToken = normalizeCastling stripped in
          (case chessMove orc testGame cleanToken h of
             (attemptedMove, h1) \<Rightarrow>
               if attemptedMove
               then replayTokens orc testGame ms currentMoveNumber (partialMoves @ [cleanToken]) h1
               else
                 (case tryOcrCorrections orc cleanToken testGame h1 of
                    (Some correctedMove, h2) \<Rightarrow>
                      (case chessMove orc testGame correctedMove h2 of
                         (applied, h3) \<Rightarrow>
                           if applied
                           then replayTokens orc testGame ms currentMoveNumber
                                  (partialMoves @ [correctedMove]) h3
                           else Inl MoveError)
                  | (None, h2) \<Rightarrow>
                      Inr (partialMoves,
                           token @ js '' (move '' @ showNumber currentMoveNumber @ js '')'',
                           currentMoveNumber, h2))))"

text \<open>The text rebuilt from the accepted moves, before the final \<^verbatim>\<open>trim\<close>.\<close>

fun reconstruct :: "nat \<Rightarrow> jsstring list \<Rightarrow> jsstring" where
  "reconstruct moveNum [] = []"
| "reconstruct moveNum [w] = showNat moveNum @ js ''. '' @ w @ js '' ''"
| "reconstruct moveNum (w # b # rest) =
     showNat moveNum @ js ''. '' @ w @ (if b \<noteq> [] then js '' '' @ b else []) @ js '' ''
       @ reconstruct (moveNum + 1) rest"

record validation =
  valid :: bool
  failedAt :: "jsstring option"
  partialPgn :: "jsstring option"
  moveCount :: nat

definition ceilHalf :: "nat \<Rightarrow> nat" where
  "ceilHalf n = (n + 1) div 2"

definition validatePgnWithDetails :: "'p engine \<Rightarrow> jsstring \<Rightarrow> exn + validation" where
  "validatePgnWithDetails orc pgn =
     (let normalized = normalizeCastling pgn;
          cleanedPgn = stripPgnMetadata normalized;
          loaded = (case loadPgn orc cleanedPgn of
                      None \<Rightarrow> None
                    | Some history \<Rightarrow> if ceilHalf (length history) = 0 then None
                                      else Some (ceilHalf (length history)))
      in case loaded of
           Some count \<Rightarrow>
             Inr \<lparr>valid = True, failedAt = None, partialPgn = None, moveCount = count\<rparr>
         | None \<Rightarrow>
            (case newChess (initial orc) [] of (testGame, h) \<Rightarrow>
              (case replayTokens orc testGame (split (Plus space) cleanedPgn) (Finite 1) [] h of
                 Inl e \<Rightarrow> Inl e
               | Inr (partialMoves, failedAtMove, _, _) \<Rightarrow>
                  if partialMoves \<noteq> [] then
                    Inr \<lparr>valid = False,
                         failedAt = Some (if failedAtMove \<noteq> [] then failedAtMove
                                          else js ''end of game''),
                         partialPgn = Some (trim (reconstruct 1 partialMoves)),
                         moveCount = ceilHalf (length partialMoves)\<rparr>
                  else
                    Inr \<lparr>valid = False,
                         failedAt = Some (if failedAtMove \<noteq> [] then failedAtMove
                                          else js ''start''),
                         partialPgn = None, moveCount = 0\<rparr>)))"


section \<open>Entry points\<close>

text \<open>
  \<^verbatim>\<open>ParseResult\<close>: the optional fields are \<open>None\<close> when the object literal leaves them
  out. (\<^verbatim>\<open>totalMovesInImage\<close> and \<^verbatim>\<open>imageQualityWarning\<close> are set for image input only.)
\<close>

record ParseResult =
  success :: bool
  pgn :: "jsstring option"
  error :: "jsstring option"
  movesFound :: "nat option"
  isPartial :: "bool option"

definition rejected :: "jsstring \<Rightarrow> ParseResult" where
  "rejected msg = \<lparr>success = False, pgn = None, error = Some msg, movesFound = None,
                   isPartial = None\<rparr>"

definition accepted :: "jsstring \<Rightarrow> nat \<Rightarrow> bool option \<Rightarrow> ParseResult" where
  "accepted text n partial = \<lparr>success = True, pgn = Some text, error = None,
                             movesFound = Some n, isPartial = partial\<rparr>"

text \<open>
  The loop over \<^verbatim>\<open>candidates\<close> in \<^verbatim>\<open>parsePgnTextInput\<close>: the history of the first
  candidate that \<^verbatim>\<open>loadPgn\<close> reads without an exception and with at least one move.
\<close>

fun firstLoaded :: "'p engine \<Rightarrow> jsstring list \<Rightarrow> jsstring list option" where
  "firstLoaded orc [] = None"
| "firstLoaded orc (candidate # rest) =
     (case loadPgn orc candidate of
        None \<Rightarrow> firstLoaded orc rest
      | Some history \<Rightarrow> if length history > 0 then Some history else firstLoaded orc rest)"

text \<open>\<^verbatim>\<open>parsePgnTextInput\<close>: \<open>Inl\<close> is a rejected promise, \<open>Inr\<close> the resolved value.\<close>

definition parsePgnTextInput :: "'p engine \<Rightarrow> jsstring \<Rightarrow> exn + ParseResult" where
  "parsePgnTextInput orc rawInput =
     (let cleanedInput = cleanPgnInput rawInput in
      if cleanedInput = [] then Inr (rejected (js ''Please paste a valid PGN string.''))
      else
        let normalizedInput = normalizeCastling cleanedInput;
            stripped = stripPgnMetadata normalizedInput;
            candidates = normalizedInput #
              (if stripped \<noteq> [] \<and> stripped \<noteq> normalizedInput then [stripped] else [])
        in case firstLoaded orc candidates of
             Some history \<Rightarrow>
               Inr (accepted (formatHistoryAsPgn history) (ceilHalf (length history)) None)
           | None \<Rightarrow>
              (case validatePgnWithDetails orc
                      (if stripped \<noteq> [] then stripped else normalizedInput) of
                 Inl e \<Rightarrow> Inl e
               | Inr validationResult \<Rightarrow>
                  if valid validationResult then
                    Inr (accepted (if stripped \<noteq> [] then stripped else normalizedInput)
                           (moveCount validationResult) None)
                  else if (case partialPgn validationResult of None \<Rightarrow> False | Some t \<Rightarrow> t \<noteq> [])
                          \<and> moveCount validationResult > 0 then
                    Inr (accepted (the (partialPgn validationResult))
                           (moveCount validationResult) (Some True))
                  else
                    Inr (rejected
                      (case failedAt validationResult of
                         Some f \<Rightarrow>
                           if f \<noteq> [] then js ''Unable to parse PGN. Problem detected near '' @ f @ js ''.''
                           else js ''Unable to parse PGN. Please verify the notation and try again.''
                       | None \<Rightarrow> js ''Unable to parse PGN. Please verify the notation and try again.''))))"

text \<open>
  \<^verbatim>\<open>parseCSV\<close>, from the rows that the CSV reader hands to the callback
  \<^verbatim>\<open>complete\<close>: a row maps header names to cells. \<open>cell row a b\<close> is
  \<^verbatim>\<open>row.a || row.b || ""\<close>.
\<close>

type_synonym row = "jsstring \<rightharpoonup> jsstring"

definition cell :: "row \<Rightarrow> string \<Rightarrow> string \<Rightarrow> jsstring" where
  "cell r a b =
     (case r (js a) of
        Some v \<Rightarrow> if v \<noteq> [] then v else (case r (js b) of Some w \<Rightarrow> w | None \<Rightarrow> [])
      | None \<Rightarrow> (case r (js b) of Some w \<Rightarrow> w | None \<Rightarrow> []))"

fun csvRows :: "row list \<Rightarrow> jsstring \<Rightarrow> nat \<Rightarrow> jsstring \<times> nat" where
  "csvRows [] text moveNumber = (text, moveNumber)"
| "csvRows (r # rs) text moveNumber =
     (let white = cell r ''White'' ''white''; black = cell r ''Black'' ''black'' in
      if white = [] \<and> black = [] then csvRows rs text moveNumber
      else csvRows rs
             (text @ (if white \<noteq> [] then showNat moveNumber @ js ''. '' @ trim white @ js '' '' else [])
                   @ (if black \<noteq> [] then trim black @ js '' '' else []))
             (moveNumber + 1))"

definition parseCSV :: "row list \<Rightarrow> ParseResult" where
  "parseCSV data =
     (case csvRows data [] 1 of
        (text, moveNumber) \<Rightarrow>
          if length (trim text) = 0 then rejected (js ''No valid chess moves found in CSV'')
          else accepted (trim text) (moveNumber - 1) None)"


text \<open>
  Names for local values of \<^verbatim>\<open>parsePgnTextInput\<close> and \<^verbatim>\<open>validatePgnWithDetails\<close>:
  the list \<^verbatim>\<open>candidates\<close>, the text \<^verbatim>\<open>stripped || normalizedInput\<close> handed to the
  validator, the validator's \<^verbatim>\<open>cleanedPgn\<close>, and the move count of its \<^verbatim>\<open>try\<close> block
  (\<open>None\<close> when the block throws).
\<close>

definition candidatesOf :: "jsstring \<Rightarrow> jsstring list" where
  "candidatesOf rawInput =
     (let normalizedInput = normalizeCastling (cleanPgnInput rawInput);
          stripped = stripPgnMetadata normalizedInput
      in normalizedInput # (if stripped \<noteq> [] \<and> stripped \<noteq> normalizedInput then [stripped] else []))"

definition validatedText :: "jsstring \<Rightarrow> jsstring" where
  "validatedText rawInput =
     (let normalizedInput = normalizeCastling (cleanPgnInput rawInput);
          stripped = stripPgnMetadata normalizedInput
      in if stripped \<noteq> [] then stripped else normalizedInput)"

definition cleanedPgnOf :: "jsstring \<Rightarrow> jsstring" where
  "cleanedPgnOf src = stripPgnMetadata (normalizeCastling src)"

definition loadedCount :: "'p engine \<Rightarrow> jsstring \<Rightarrow> nat option" where
  "loadedCount orc t =
     (case loadPgn orc t of
        None \<Rightarrow> None
      | Some history \<Rightarrow> if ceilHalf (length history) = 0 then None
                        else Some (ceilHalf (length history)))"

text \<open>
  Tabular input, described row by row: a row is kept when one of its two cells is not
  empty; the \<open>i\<close>-th kept row contributes the text \<open>rowText (i, r)\<close>.
\<close>

definition keptRow :: "row \<Rightarrow> bool" where
  "keptRow r = (cell r ''White'' ''white'' \<noteq> [] \<or> cell r ''Black'' ''black'' \<noteq> [])"

definition rowText :: "nat \<times> row \<Rightarrow> jsstring" where
  "rowText ir = (case ir of (i, r) \<Rightarrow>
     (if cell r ''White'' ''white'' \<noteq> []
      then showNat i @ js ''. '' @ trim (cell r ''White'' ''white'') @ js '' '' else [])
     @ (if cell r ''Black'' ''black'' \<noteq> [] then trim (cell r ''Black'' ''black'') @ js '' '' else []))"

definition csvText :: "row list \<Rightarrow> jsstring" where
  "csvText data =
     concat (map rowText (zip [1..<Suc (length (filter keptRow data))] (filter keptRow data)))"

definition exampleRows :: "row list" where
  "exampleRows = [[js ''White'' \<mapsto> js ''e4'', js ''Black'' \<mapsto> js ''e5''],
                  [js ''White'' \<mapsto> js ''Nf3'', js ''Black'' \<mapsto> js ''Nc6'']]"

text \<open>
  A token of the replay loop that is offered to the engine: not blank, not a move number,
  and not empty once move numbers are deleted from it.
\<close>

definition isMoveToken :: "jsstring \<Rightarrow> bool" where
  "isMoveToken m =
     (trim m \<noteq> [] \<and> \<not> test moveNumberRx (trim m)
      \<and> trim (replaceAll numDotRx [] (trim m)) \<noteq> [])"

definition cleanTokenOf :: "jsstring \<Rightarrow> jsstring" where
  "cleanTokenOf m = normalizeCastling (trim (replaceAll numDotRx [] (trim m)))"

text \<open>
  The replay halts at token \<open>m\<close>: it is offered to the engine, the engine rejects it in
  the state of the live board \<open>h ! g\<close>, and the corrector finds no replacement.
\<close>

definition rejectedAt :: "'p engine \<Rightarrow> nat \<Rightarrow> jsstring \<Rightarrow> 'p store \<Rightarrow> bool" where
  "rejectedAt orc g m h =
     (isMoveToken m \<and> move orc (h ! g) (cleanTokenOf m) = None
      \<and> fst (tryOcrCorrections orc (cleanTokenOf m) g h) = None)"

text \<open>
  Names for the statement of what the replay keeps. A number token sets the current move
  number; \<open>numberAt pre\<close> is the move number after the tokens \<open>pre\<close>. An accepted move is
  \<open>taken\<close> from a token when it is the cleaned token or a correction of it. \<open>plies text\<close>
  reads numbered movetext back: the words between single spaces, without the move number
  that stands before every white move. \<open>spaceFree\<close>: not empty and without white space.
\<close>

definition isNumberToken :: "jsstring \<Rightarrow> bool" where
  "isNumberToken m = (trim m \<noteq> [] \<and> test moveNumberRx (trim m))"

definition numberAt :: "jsstring list \<Rightarrow> number" where
  "numberAt pre = last (Finite 1 # map (\<lambda>m. parseInt (trim m)) (filter isNumberToken pre))"

definition taken :: "'p engine \<Rightarrow> jsstring \<Rightarrow> jsstring \<Rightarrow> bool" where
  "taken orc a t =
     (a = cleanTokenOf t \<or> (\<exists>g h. fst (tryOcrCorrections orc (cleanTokenOf t) g h) = Some a))"

fun wordsFrom :: "jsstring \<Rightarrow> jsstring \<Rightarrow> jsstring list" where
  "wordsFrom w [] = (if w = [] then [] else [w])"
| "wordsFrom w (c # s) =
     (if c = 32 then (if w = [] then wordsFrom [] s else w # wordsFrom [] s)
      else wordsFrom (w @ [c]) s)"

fun unnumber :: "jsstring list \<Rightarrow> jsstring list" where
  "unnumber (n # w # b # rest) = w # b # unnumber rest"
| "unnumber [n, w] = [w]"
| "unnumber _ = []"

definition plies :: "jsstring \<Rightarrow> jsstring list" where
  "plies text = unnumber (wordsFrom [] text)"

definition spaceFree :: "jsstring \<Rightarrow> bool" where
  "spaceFree m = (m \<noteq> [] \<and> (\<forall>c\<in>set m. \<not> isSpace c))"

definition okFix :: "correction \<Rightarrow> bool" where
  "okFix k = (case k of (r, f, g) \<Rightarrow>
     \<forall>m. f m \<noteq> [] \<and> (\<forall>c\<in>set (f m). c \<in> set m \<or> \<not> isSpace c))"

fun numbered :: "nat \<Rightarrow> jsstring list \<Rightarrow> jsstring list" where
  "numbered n [] = []"
| "numbered n [w] = [showNat n @ [46], w]"
| "numbered n (w # b # rest) = (showNat n @ [46]) # w # b # numbered (n + 1) rest"


section \<open>An engine for closed examples\<close>

text \<open>
  An engine that knows one line of play: after \<open>k\<close> moves of the line the only legal move
  is move \<open>k\<close> of the line, written as the line writes it. A position is the number of
  moves played. \<^verbatim>\<open>loadPgn\<close> drops the move numbers and accepts a text whose remaining
  tokens are the first moves of the line.
\<close>

definition lineLoad :: "jsstring list \<Rightarrow> jsstring \<Rightarrow> jsstring list option" where
  "lineLoad line text =
     (let toks = filter (\<lambda>t. t \<noteq> [] \<and> \<not> test (seqs [Bol, Plus digit, ch CHR ''.'', Eol]) t)
                        (split (Plus space) (trim text))
      in if toks = take (length toks) line then Some toks else None)"

definition lineEngine :: "jsstring list \<Rightarrow> nat engine" where
  "lineEngine line =
     \<lparr>initial = 0,
      move = (\<lambda>p t. if p < length line \<and> line ! p = t then Some (Suc p) else None),
      moves = (\<lambda>p. if p < length line then [line ! p] else []),
      fen = showNat,
      fromFen = (\<lambda>f. Some (digitsValue (takeWhile isDigit f))),
      loadPgn = lineLoad line\<rparr>"

definition line4 :: "jsstring list" where
  "line4 = [js ''e4'', js ''e5'', js ''Nf3'', js ''Nc6'']"

definition line7 :: "jsstring list" where
  "line7 = [js ''e4'', js ''e5'', js ''Nf3'', js ''Nc6'', js ''Bc4'', js ''Bc5'', js ''O-O'']"

definition text2 :: jsstring where
  "text2 = js ''1. e4 e5 2. Nf3 Nc6 3. Zz9 a6''"

definition text7 :: jsstring where
  "text7 = js ''1. e4 e5 2. Nf3 Nc6 3. Bc4 Bc5 4. 0-{c}0''"

definition stripped7 :: jsstring where
  "stripped7 = js ''1. e4 e5 2. Nf3 Nc6 3. Bc4 Bc5 4. 0- 0''"

definition castled7 :: jsstring where
  "castled7 = js ''1. e4 e5 2. Nf3 Nc6 3. Bc4 Bc5 4. O-O''"

section \<open>Evaluation\<close>

text \<open>
  Below \<open>2\<^sup>5\<^sup>3\<close> every natural number is a double, \<^verbatim>\<open>parseInt\<close> is exact and the number
  is printed with its decimal digits.
\<close>

lemma bitlen_le: "n < 2 ^ k \<Longrightarrow> bitlen n \<le> k"
proof (induction k arbitrary: n)
  case 0
  then show ?case by (simp add: bitlen.simps)
next
  case (Suc k)
  show ?case
  proof (cases "n = 0")
    case True
    then show ?thesis by (simp add: bitlen.simps)
  next
    case False
    from Suc.prems have "n div 2 < 2 ^ k" by simp
    from Suc.IH[OF this] False show ?thesis by (subst bitlen.simps) simp
  qed
qed

lemma bitlen_gt: "2 ^ k \<le> n \<Longrightarrow> k < bitlen n"
proof (induction k arbitrary: n)
  case 0
  then show ?case by (subst bitlen.simps) simp
next
  case (Suc k)
  then have "2 ^ k \<le> n div 2" by simp
  moreover have "(0::nat) < 2 ^ Suc k" by (rule zero_less_power) simp
  then have "0 < n" using Suc.prems by (rule less_le_trans)
  then have "n \<noteq> 0" by simp
  ultimately show ?case using Suc.IH[of "n div 2"] by (subst bitlen.simps) simp
qed

lemma bitlen_lower: "n \<noteq> 0 \<Longrightarrow> 2 ^ (bitlen n - 1) \<le> n"
proof (induction n rule: bitlen.induct)
  case (1 n)
  show ?case
  proof (cases "n div 2 = 0")
    case True
    with "1.prems" have "bitlen n = 1" by (subst bitlen.simps, subst bitlen.simps) simp
    with "1.prems" show ?thesis by simp
  next
    case False
    with "1.IH" "1.prems" have i: "2 ^ (bitlen (n div 2) - 1) \<le> n div 2" by simp
    from False have "bitlen (n div 2) \<noteq> 0" by (subst bitlen.simps) simp
    then have "bitlen n - 1 = Suc (bitlen (n div 2) - 1)"
      using "1.prems" by (subst bitlen.simps) simp
    with i show ?thesis by simp
  qed
qed

lemma toNumber_small: "n < 2 ^ 53 \<Longrightarrow> toNumber n = Finite n"
proof -
  assume n: "n < 2 ^ 53"
  then have "bitlen n - 53 = 0" using bitlen_le[of n 53] by simp
  moreover have "n < 2 ^ 1024"
  proof -
    have "(2::nat) ^ 53 \<le> 2 ^ 1024" by (rule power_increasing) simp_all
    with n show ?thesis by linarith
  qed
  ultimately show ?thesis by (simp add: toNumber_def roundTo_def)
qed

lemma toNumber_big: "2 ^ 53 \<le> n \<Longrightarrow> toNumber n = Finite v \<Longrightarrow> 2 ^ 53 \<le> v"
proof -
  assume n: "2 ^ 53 \<le> n" and t: "toNumber n = Finite v"
  define e where "e = bitlen n - 53"
  from bitlen_gt[OF n] have b: "bitlen n = 53 + e" "0 < e" by (simp_all add: e_def)
  from n have "n \<noteq> 0" by auto
  from bitlen_lower[OF this] have "2 ^ (52 + e) \<le> n" by (simp add: b)
  then have "(2::nat) ^ 52 * 2 ^ e \<le> n" by (simp add: power_add)
  then have q: "2 ^ 52 \<le> n div 2 ^ e"
    by (simp add: less_eq_div_iff_mult_less_eq)
  have r: "n div 2 ^ e * 2 ^ e \<le> roundTo e n"
    by (simp add: roundTo_def Let_def)
  from b(2) have "(2::nat) ^ 1 \<le> 2 ^ e" by (intro power_increasing) simp_all
  then have two: "(2::nat) \<le> 2 ^ e" by simp
  have "(2::nat) ^ 52 * 2 \<le> n div 2 ^ e * 2 ^ e"
    by (rule mult_mono[OF q two]) simp_all
  from this r have "(2::nat) ^ 52 * 2 \<le> roundTo e n" by (rule order_trans)
  then have "2 ^ 53 \<le> roundTo e n" by simp
  moreover from t have "v = roundTo e n"
    by (simp add: toNumber_def Let_def e_def split: if_splits)
  ultimately show ?thesis by simp
qed

lemma pick_small:
  assumes x: "x < 2 ^ 53" and p: "0 < p"
  shows "pick x p = (if p dvd x then Some x else None)"
proof -
  let ?lo = "x div p * p"
  have lo: "?lo \<le> x" by simp
  with x have "?lo < 2 ^ 53" by linarith
  then have tl: "toNumber ?lo = Finite ?lo" by (rule toNumber_small)
  have hi: "x < ?lo + p" using p by (metis div_mult_mod_eq add_less_cancel_left mod_less_divisor)
  have th: "toNumber (?lo + p) \<noteq> Finite x"
  proof (cases "?lo + p < 2 ^ 53")
    case True
    from toNumber_small[OF this] hi show ?thesis by simp
  next
    case False
    then have "2 ^ 53 \<le> ?lo + p" by simp
    from toNumber_big[OF this] x show ?thesis by fastforce
  qed
  have e: "(?lo = x) = (p dvd x)" by (metis dvd_div_mult_self dvd_triv_right)
  show ?thesis using tl th e by (simp add: pick_def Let_def)
qed

lemma shortestFrom_small: "x < 2 ^ 53 \<Longrightarrow> shortestFrom x j = x"
  by (induction j) (simp_all add: pick_small)

lemma length_showNat: "n < 10 ^ k \<Longrightarrow> 0 < k \<Longrightarrow> length (showNat n) \<le> k"
proof (induction k arbitrary: n)
  case 0
  then show ?case by simp
next
  case (Suc k)
  show ?case
  proof (cases "n < 10")
    case True
    then show ?thesis by (subst showNat.simps) simp
  next
    case False
    with Suc.prems have k: "0 < k" by (cases k) simp_all
    from Suc.prems have "n div 10 < 10 ^ k" by simp
    from Suc.IH[OF this k] False show ?thesis by (subst showNat.simps) simp
  qed
qed

lemma showNumber_small: "n < 2 ^ 53 \<Longrightarrow> showNumber (Finite n) = showNat n"
proof -
  assume n: "n < 2 ^ 53"
  have "(2::nat) ^ 53 < 10 ^ 21" by simp
  with n have "n < 10 ^ 21" by linarith
  from length_showNat[OF this] have "length (showNat n) \<le> 21" by simp
  then show ?thesis
    by (simp add: showNumber_def shortest_def shortestFrom_small[OF n] showDecimal_def Let_def)
qed

lemma parseInt_digits: "ds \<noteq> [] \<Longrightarrow> list_all isDigit ds \<Longrightarrow> \<not> isDigit c \<Longrightarrow>
   parseInt (ds @ c # s) = toNumber (digitsValue ds)"
  by (simp add: parseInt_def Let_def takeWhile_append2 list_all_iff takeWhile_eq_all_conv[THEN iffD2])

text \<open>The equations that compute a pattern match, a normal form, a replay on a closed term.\<close>

lemmas rx_ev = match_at_def ch_def chi_def oneOf_def oneOfi_def noneOf_def
  between_def betweeni_def space_def digit_def Plus_def lit_def liti_def isSpace_def isDigit_def
  isUpper_def isLower_def isWordChar_def ci_def wordBefore_def wordAfter_def ends.simps(7)
  replaceAll_def test_def trim_def trimStart_def trimEnd_def js_def split_def

lemmas norm_ev = normalizeCastling_def dash_def oLike_def cyrO_def nbsp_def Let_def
  tagRx_def braceRx_def semiRx_def parenRx_def stripParensOnce_def stripPgnMetadata_def
  stripParens.simps cleanPgnInput_def normalizeText_def

lemmas replay_ev = newChess_def chessMove_def showNat.simps parseInt_def digitsValue_def
  toNumber_small showNumber_small formatHistoryAsPgn_def
  rankFix_def pieceFix_def fileFix_def charFix_def corrections_def applyCorrection_def
  plainPieceRx_def capturePieceRx_def disambiguate_def tryOcrCorrections_def
  moveNumberRx_def numDotRx_def ceilHalf_def lineLoad_def lineEngine_def

section \<open>Properties of the entry points\<close>

subsection \<open>Empty input\<close>

lemma trim_spaces: "list_all isSpace s \<Longrightarrow> trim s = []"
proof -
  assume "list_all isSpace s"
  then have a: "dropWhile isSpace s = []" by (induction s) auto
  show ?thesis unfolding trim_def trimStart_def trimEnd_def a by simp
qed

lemma cleanPgnInput_spaces: "list_all isSpace s \<Longrightarrow> cleanPgnInput s = []"
proof -
  assume s: "list_all isSpace s"
  have n96: "\<forall>c\<in>set s. c \<noteq> 96" and n42: "\<forall>c\<in>set s. c \<noteq> 42"
    using s by (auto simp: list_all_iff isSpace_def)
  have 1: "replaceAll (Seq (liti ''```pgn'') (Star space)) [] s = s"
    using n96 by (intro replaceAll_untouched) (auto simp: liti_def chi_def ci_def isUpper_def isLower_def)
  have 2: "replaceAll (lit ''```'') [] s = s"
    using n96 by (intro replaceAll_untouched) (auto simp: lit_def ch_def)
  have 3: "replaceAll (lit ''**'') [] s = s"
    using n42 by (intro replaceAll_untouched) (auto simp: lit_def ch_def)
  have 4: "list_all isSpace (replaceAll (Cls (\<lambda>x. x = 13)) [10]
        (replaceAll (Cls (\<lambda>x. x = nbsp)) (js '' '') s))"
    using s by (auto simp: replaceAll_Cls js_def list_all_iff isSpace_def)
  show ?thesis
    unfolding cleanPgnInput_def 1 2 3 using 4 by (simp add: trim_spaces)
qed


text \<open>
  C8. For every raw text that is empty or consists of white space only, and for every
  engine, \<^verbatim>\<open>parsePgnTextInput\<close> resolves (it does not throw) with the rejection
  \<^verbatim>\<open>Please paste a valid PGN string.\<close> The result is the same for every engine: no
  answer of the engine is used, so no replay is attempted.
\<close>

theorem empty_input_rejected:
  "list_all isSpace rawInput \<Longrightarrow>
     parsePgnTextInput orc rawInput = Inr (rejected (js ''Please paste a valid PGN string.''))"
  by (simp add: parsePgnTextInput_def cleanPgnInput_spaces)

theorem empty_input_rejected_witness:
  "list_all isSpace [32, 9, 10, 160] \<and>
   parsePgnTextInput (lineEngine [js ''e4'']) [32, 9, 10, 160]
     = Inr (rejected (js ''Please paste a valid PGN string.''))"
  using empty_input_rejected[of "[32, 9, 10, 160]" "lineEngine [js ''e4'']"]
  by (simp add: isSpace_def)


subsection \<open>The branches of the entry points\<close>

lemma parse_empty:
  "cleanPgnInput rawInput = [] \<Longrightarrow>
     parsePgnTextInput orc rawInput = Inr (rejected (js ''Please paste a valid PGN string.''))"
  by (simp add: parsePgnTextInput_def)

lemma parse_loaded:
  "cleanPgnInput rawInput \<noteq> [] \<Longrightarrow> firstLoaded orc (candidatesOf rawInput) = Some history \<Longrightarrow>
     parsePgnTextInput orc rawInput
       = Inr (accepted (formatHistoryAsPgn history) (ceilHalf (length history)) None)"
  by (simp add: parsePgnTextInput_def candidatesOf_def Let_def)

lemma parse_throws:
  "cleanPgnInput rawInput \<noteq> [] \<Longrightarrow> firstLoaded orc (candidatesOf rawInput) = None \<Longrightarrow>
   validatePgnWithDetails orc (validatedText rawInput) = Inl e \<Longrightarrow>
     parsePgnTextInput orc rawInput = Inl e"
  by (simp add: parsePgnTextInput_def candidatesOf_def validatedText_def Let_def)

lemma parse_validated:
  "cleanPgnInput rawInput \<noteq> [] \<Longrightarrow> firstLoaded orc (candidatesOf rawInput) = None \<Longrightarrow>
   validatePgnWithDetails orc (validatedText rawInput) = Inr v \<Longrightarrow> valid v \<Longrightarrow>
     parsePgnTextInput orc rawInput = Inr (accepted (validatedText rawInput) (moveCount v) None)"
  by (simp add: parsePgnTextInput_def candidatesOf_def validatedText_def Let_def)

lemma parse_partial:
  "cleanPgnInput rawInput \<noteq> [] \<Longrightarrow> firstLoaded orc (candidatesOf rawInput) = None \<Longrightarrow>
   validatePgnWithDetails orc (validatedText rawInput) = Inr v \<Longrightarrow> \<not> valid v \<Longrightarrow>
   partialPgn v = Some t \<Longrightarrow> t \<noteq> [] \<Longrightarrow> 0 < moveCount v \<Longrightarrow>
     parsePgnTextInput orc rawInput = Inr (accepted t (moveCount v) (Some True))"
  by (simp add: parsePgnTextInput_def candidatesOf_def validatedText_def Let_def)

lemma parse_nothing:
  "cleanPgnInput rawInput \<noteq> [] \<Longrightarrow> firstLoaded orc (candidatesOf rawInput) = None \<Longrightarrow>
   validatePgnWithDetails orc (validatedText rawInput) = Inr v \<Longrightarrow> \<not> valid v \<Longrightarrow>
   partialPgn v = None \<Longrightarrow> failedAt v = Some f \<Longrightarrow> f \<noteq> [] \<Longrightarrow>
     parsePgnTextInput orc rawInput
       = Inr (rejected (js ''Unable to parse PGN. Problem detected near '' @ f @ js ''.''))"
  by (simp add: parsePgnTextInput_def candidatesOf_def validatedText_def Let_def)

lemma validate_loaded:
  "loadedCount orc (cleanedPgnOf src) = Some n \<Longrightarrow>
     validatePgnWithDetails orc src
       = Inr \<lparr>valid = True, failedAt = None, partialPgn = None, moveCount = n\<rparr>"
  by (simp add: validatePgnWithDetails_def loadedCount_def cleanedPgnOf_def Let_def)

lemma validate_replayed:
  "loadedCount orc (cleanedPgnOf src) = None \<Longrightarrow>
   replayTokens orc 0 (split (Plus space) (cleanedPgnOf src)) (Finite 1) [] [initial orc]
     = Inr (partialMoves, failedAtMove, n, h) \<Longrightarrow> partialMoves \<noteq> [] \<Longrightarrow>
     validatePgnWithDetails orc src
       = Inr \<lparr>valid = False,
               failedAt = Some (if failedAtMove \<noteq> [] then failedAtMove else js ''end of game''),
               partialPgn = Some (trim (reconstruct 1 partialMoves)),
               moveCount = ceilHalf (length partialMoves)\<rparr>"
  by (simp add: validatePgnWithDetails_def loadedCount_def cleanedPgnOf_def Let_def newChess_def)

lemma validate_nothing:
  "loadedCount orc (cleanedPgnOf src) = None \<Longrightarrow>
   replayTokens orc 0 (split (Plus space) (cleanedPgnOf src)) (Finite 1) [] [initial orc]
     = Inr ([], failedAtMove, n, h) \<Longrightarrow>
     validatePgnWithDetails orc src
       = Inr \<lparr>valid = False,
               failedAt = Some (if failedAtMove \<noteq> [] then failedAtMove else js ''start''),
               partialPgn = None, moveCount = 0\<rparr>"
  by (simp add: validatePgnWithDetails_def loadedCount_def cleanedPgnOf_def Let_def newChess_def)

lemma validate_throws:
  "loadedCount orc (cleanedPgnOf src) = None \<Longrightarrow>
   replayTokens orc 0 (split (Plus space) (cleanedPgnOf src)) (Finite 1) [] [initial orc] = Inl e \<Longrightarrow>
     validatePgnWithDetails orc src = Inl e"
  by (simp add: validatePgnWithDetails_def loadedCount_def cleanedPgnOf_def Let_def newChess_def)

text \<open>One iteration of the loop, by the kind of token.\<close>

lemma replay_skip:
  "\<not> isMoveToken m \<Longrightarrow>
     replayTokens orc g (m # ms) n acc h
       = replayTokens orc g ms (if trim m \<noteq> [] \<and> test moveNumberRx (trim m) then parseInt (trim m) else n) acc h"
  by (auto simp: isMoveToken_def Let_def)

lemma replay_accept:
  "isMoveToken m \<Longrightarrow> move orc (h ! g) (cleanTokenOf m) = Some p \<Longrightarrow>
     replayTokens orc g (m # ms) n acc h
       = replayTokens orc g ms n (acc @ [cleanTokenOf m]) (h[g := p])"
  by (simp add: isMoveToken_def cleanTokenOf_def Let_def chessMove_def)

lemma replay_correct:
  "isMoveToken m \<Longrightarrow> move orc (h ! g) (cleanTokenOf m) = None \<Longrightarrow>
   tryOcrCorrections orc (cleanTokenOf m) g h = (Some c, h2) \<Longrightarrow>
   move orc (h2 ! g) c = Some p \<Longrightarrow>
     replayTokens orc g (m # ms) n acc h = replayTokens orc g ms n (acc @ [c]) (h2[g := p])"
  by (simp add: isMoveToken_def cleanTokenOf_def Let_def chessMove_def)

lemma replay_fail:
  "isMoveToken m \<Longrightarrow> move orc (h ! g) (cleanTokenOf m) = None \<Longrightarrow>
   tryOcrCorrections orc (cleanTokenOf m) g h = (None, h2) \<Longrightarrow>
     replayTokens orc g (m # ms) n acc h
       = Inr (acc, trim m @ js '' (move '' @ showNumber n @ js '')'', n, h2)"
  by (simp add: isMoveToken_def cleanTokenOf_def Let_def chessMove_def)

lemma failure_text_nonempty: "t @ js '' (move '' @ showNumber n @ js '')'' \<noteq> []"
  by (simp add: js_def)

lemma replay_append:
  "replayTokens orc g (pre @ post) n acc h =
     (case replayTokens orc g pre n acc h of
        Inl e \<Rightarrow> Inl e
      | Inr (acc', fa, n', h') \<Rightarrow>
          if fa = [] then replayTokens orc g post n' acc' h' else Inr (acc', fa, n', h'))"
proof (induction pre arbitrary: n acc h)
  case Nil
  then show ?case by simp
next
  case (Cons m pre)
  show ?case
    unfolding append_Cons replayTokens.simps(2)
    by (simp add: Cons.IH Let_def failure_text_nonempty split: prod.splits option.splits)
qed

lemma replay_throw:
  "isMoveToken m \<Longrightarrow> move orc (h ! g) (cleanTokenOf m) = None \<Longrightarrow>
   tryOcrCorrections orc (cleanTokenOf m) g h = (Some c, h2) \<Longrightarrow>
   move orc (h2 ! g) c = None \<Longrightarrow>
     replayTokens orc g (m # ms) n acc h = Inl MoveError"
  by (simp add: isMoveToken_def cleanTokenOf_def Let_def chessMove_def)

lemma replay_count:
  "replayTokens orc g ts n acc h = Inr (acc', [], n', h') \<Longrightarrow>
     length acc' = length acc + length (filter isMoveToken ts)"
proof (induction ts arbitrary: n acc h)
  case Nil
  then show ?case by simp
next
  case (Cons m ts)
  show ?case
  proof (cases "isMoveToken m")
    case False
    with Cons.prems Cons.IH show ?thesis
      by (simp add: replay_skip del: replayTokens.simps)
  next
    case True
    show ?thesis
    proof (cases "move orc (h ! g) (cleanTokenOf m)")
      case (Some p)
      from Cons.prems have "replayTokens orc g ts n (acc @ [cleanTokenOf m]) (h[g := p])
          = Inr (acc', [], n', h')"
        by (simp only: replay_accept[OF True Some])
      from Cons.IH[OF this] True show ?thesis by simp
    next
      case None
      obtain r h2 where t: "tryOcrCorrections orc (cleanTokenOf m) g h = (r, h2)"
        by (cases "tryOcrCorrections orc (cleanTokenOf m) g h")
      show ?thesis
      proof (cases r)
        case None': None
        from Cons.prems show ?thesis
          by (simp only: replay_fail[OF True None t[unfolded None']])
             (simp add: js_def)
      next
        case (Some c)
        show ?thesis
        proof (cases "move orc (h2 ! g) c")
          case None'': None
          from Cons.prems show ?thesis
            by (simp only: replay_throw[OF True None t[unfolded Some] None'']) simp
        next
          case Some': (Some p)
          from Cons.prems have "replayTokens orc g ts n (acc @ [c]) (h2[g := p])
              = Inr (acc', [], n', h')"
            by (simp only: replay_correct[OF True None t[unfolded Some] Some'])
          from Cons.IH[OF this] True show ?thesis by simp
        qed
      qed
    qed
  qed
qed

lemma showNat_digits: "showNat n \<noteq> [] \<and> (\<forall>c\<in>set (showNat n). isDigit c)"
proof (induction n rule: showNat.induct)
  case (1 n)
  show ?case
  proof (cases "n < 10")
    case True
    then show ?thesis by (subst (1 2) showNat.simps) (simp add: isDigit_def)
  next
    case False
    have "n mod 10 < 10" by simp
    then have "isDigit (48 + n mod 10)" unfolding isDigit_def by linarith
    with False "1.IH" show ?thesis by (subst (1 2) showNat.simps) simp
  qed
qed

lemma digit_not_space: "isDigit c \<Longrightarrow> \<not> isSpace c"
  by (auto simp: isDigit_def isSpace_def)

lemma in_dropWhile: "c \<in> set xs \<Longrightarrow> \<not> P c \<Longrightarrow> c \<in> set (dropWhile P xs)"
  by (induction xs) auto

lemma trim_nonempty: "c \<in> set s \<Longrightarrow> \<not> isSpace c \<Longrightarrow> trim s \<noteq> []"
proof -
  assume c: "c \<in> set s" "\<not> isSpace c"
  then have "c \<in> set (rev (dropWhile isSpace s))"
    by (simp add: in_dropWhile)
  then have "c \<in> set (dropWhile isSpace (rev (dropWhile isSpace s)))"
    using c(2) by (rule in_dropWhile)
  then have "dropWhile isSpace (rev (dropWhile isSpace s)) \<noteq> []"
    by (cases "dropWhile isSpace (rev (dropWhile isSpace s))") simp_all
  then show ?thesis
    unfolding trim_def trimStart_def trimEnd_def rev_is_Nil_conv .
qed

lemma reconstruct_nonempty: "pm \<noteq> [] \<Longrightarrow> trim (reconstruct n pm) \<noteq> []"
proof -
  assume "pm \<noteq> []"
  then obtain rest where r: "reconstruct n pm = showNat n @ rest"
    by (cases "(n, pm)" rule: reconstruct.cases) auto
  from showNat_digits[of n] obtain c where "c \<in> set (showNat n)" "isDigit c"
    by (cases "showNat n") auto
  then show ?thesis unfolding r using trim_nonempty[of c] digit_not_space by auto
qed

lemma replay_stops:
  assumes pre: "replayTokens orc g pre n acc h = Inr (acc', [], n', h')"
      and bad: "rejectedAt orc g bad h'"
  shows "\<exists>h''. replayTokens orc g (pre @ bad # post) n acc h
            = Inr (acc', trim bad @ js '' (move '' @ showNumber n' @ js '')'', n', h'')"
proof -
  obtain r h2 where t: "tryOcrCorrections orc (cleanTokenOf bad) g h' = (r, h2)"
    by (cases "tryOcrCorrections orc (cleanTokenOf bad) g h'")
  with bad have r: "r = None" by (simp add: rejectedAt_def)
  from bad have m: "isMoveToken bad" "move orc (h' ! g) (cleanTokenOf bad) = None"
    by (simp_all add: rejectedAt_def)
  show ?thesis
    unfolding replay_append[of orc g pre "bad # post"] pre
    using replay_fail[OF m t[unfolded r]] by simp
qed

subsection \<open>Tabular input\<close>

lemma csvRows_eq:
  "csvRows rs acc n =
     (acc @ concat (map rowText (zip [n..<n + length (filter keptRow rs)] (filter keptRow rs))),
      n + length (filter keptRow rs))"
proof (induction rs arbitrary: acc n)
  case Nil
  then show ?case by simp
next
  case (Cons r rs)
  show ?case
  proof (cases "keptRow r")
    case False
    then have w: "cell r ''White'' ''white'' = [] \<and> cell r ''Black'' ''black'' = []"
      by (simp add: keptRow_def)
    have filt: "filter keptRow (r # rs) = filter keptRow rs"
      using False by simp
    show ?thesis unfolding filt using w by (simp add: Cons.IH)
  next
    case True
    have upt: "[n..<Suc (n + k)] = n # [Suc n..<Suc (n + k)]" for k
      by (rule upt_conv_Cons) simp
    from True have w: "\<not> (cell r ''White'' ''white'' = [] \<and> cell r ''Black'' ''black'' = [])"
      by (simp add: keptRow_def)
    have filt: "filter keptRow (r # rs) = r # filter keptRow rs"
      using True by simp
    show ?thesis
      unfolding filt using w
      by (simp add: Cons.IH rowText_def upt Let_def del: upt_Suc)
  qed
qed

lemma parseCSV_eq:
  "parseCSV data =
     (if trim (csvText data) = [] then rejected (js ''No valid chess moves found in CSV'')
      else accepted (trim (csvText data)) (length (filter keptRow data)) None)"
  by (simp add: parseCSV_def csvRows_eq csvText_def)

lemma rows_value: "parseCSV exampleRows = accepted (js ''1. e4 e5 2. Nf3 Nc6'') 2 None"
  by (simp add: parseCSV_def exampleRows_def cell_def showNat.simps rx_ev numeral_2_eq_2[symmetric])

lemma rows_text_clean: "cleanPgnInput (js ''1. e4 e5 2. Nf3 Nc6'') = js ''1. e4 e5 2. Nf3 Nc6''"
  by (simp add: rx_ev norm_ev)
lemma rows_text_norm: "normalizeCastling (js ''1. e4 e5 2. Nf3 Nc6'') = js ''1. e4 e5 2. Nf3 Nc6''"
  by (simp add: rx_ev norm_ev)
lemma rows_text_format: "formatHistoryAsPgn [js ''e4'', js ''e5'', js ''Nf3'', js ''Nc6''] = js ''1. e4 e5 2. Nf3 Nc6''"
  by (simp add: rx_ev formatHistoryAsPgn_def showNat.simps)

lemma rows_text_parse: "loadPgn orc (js ''1. e4 e5 2. Nf3 Nc6'') = Some [js ''e4'', js ''e5'', js ''Nf3'', js ''Nc6'']
  \<Longrightarrow> parsePgnTextInput orc (js ''1. e4 e5 2. Nf3 Nc6'') = Inr (parseCSV exampleRows)"
proof -
  assume l: "loadPgn orc (js ''1. e4 e5 2. Nf3 Nc6'') = Some [js ''e4'', js ''e5'', js ''Nf3'', js ''Nc6'']"
  have ne: "js ''1. e4 e5 2. Nf3 Nc6'' \<noteq> []" by (simp add: js_def)
  have c: "ceilHalf (Suc (Suc (Suc (Suc 0)))) = 2"
    by (simp add: ceilHalf_def)
  show ?thesis
    unfolding parsePgnTextInput_def rows_value rows_text_clean Let_def rows_text_norm
    using ne by (simp add: l rows_text_format c)
qed

lemma csv_upper_header: "parseCSV [[js ''WHITE'' \<mapsto> js ''e4'', js ''BLACK'' \<mapsto> js ''e5'']]
   = rejected (js ''No valid chess moves found in CSV'')"
  by (simp add: parseCSV_def cell_def rx_ev)

lemma csv_unchecked: "parseCSV [[js ''White'' \<mapsto> js ''Zz9'', js ''Black'' \<mapsto> js ''??'']]
   = accepted (js ''1. Zz9 ??'') 1 None"
  by (simp add: parseCSV_def cell_def rx_ev showNat.simps)

lemma line4_load:
  "loadPgn (lineEngine line4) (js ''1. e4 e5 2. Nf3 Nc6'') = Some line4"
  by (simp add: line4_def lineEngine_def lineLoad_def rx_ev)

lemma unchecked_text_rejected:
  "parsePgnTextInput (lineEngine line4) (js ''1. Zz9 ??'')
     = Inr (rejected (js ''Unable to parse PGN. Problem detected near Zz9 (move 1).''))"
proof -
  let ?t = "js ''1. Zz9 ??''"
  have c: "cleanPgnInput ?t = ?t" by (simp add: rx_ev norm_ev)
  have n: "normalizeCastling ?t = ?t" by (simp add: rx_ev norm_ev)
  have st: "stripPgnMetadata ?t = ?t" by (simp add: rx_ev norm_ev)
  have l: "loadPgn (lineEngine line4) ?t = None" by (simp add: line4_def rx_ev replay_ev)
  have ne: "cleanPgnInput ?t \<noteq> []" unfolding c by (simp add: js_def)
  have fl: "firstLoaded (lineEngine line4) (candidatesOf ?t) = None"
    by (simp add: candidatesOf_def c n st l)
  have vt: "validatedText ?t = ?t" by (simp add: validatedText_def c n st)
  have cp: "cleanedPgnOf ?t = ?t" by (simp add: cleanedPgnOf_def n st)
  have lc: "loadedCount (lineEngine line4) (cleanedPgnOf ?t) = None"
    by (simp add: loadedCount_def cp l)
  have sp: "split (Plus space) ?t = [js ''1.'', js ''Zz9'', js ''??'']" by (simp add: rx_ev)
  have r: "replayTokens (lineEngine line4) 0 (split (Plus space) (cleanedPgnOf ?t)) (Finite 1) []
             [initial (lineEngine line4)] = Inr ([], js ''Zz9 (move 1)'', Finite 1, [0])"
    unfolding cp sp by (simp add: line4_def rx_ev replay_ev norm_ev)
  have f: "js ''Zz9 (move 1)'' \<noteq> []" by (simp add: js_def)
  have v: "validatePgnWithDetails (lineEngine line4) (validatedText ?t)
             = Inr \<lparr>valid = False, failedAt = Some (js ''Zz9 (move 1)''), partialPgn = None,
                     moveCount = 0\<rparr>"
    unfolding vt using validate_nothing[OF lc r] f by simp
  show ?thesis
    using parse_nothing[OF ne fl v _ _ _ f] by (simp add: js_def)
qed

text \<open>
  C4 (as the code has it). \<^verbatim>\<open>parseCSV\<close> reads the cells \<^verbatim>\<open>White\<close> or \<^verbatim>\<open>white\<close> and
  \<^verbatim>\<open>Black\<close> or \<^verbatim>\<open>black\<close> of every row, in exactly these two spellings. The rows
  with a non-empty cell are numbered 1, 2, ... in row order and written one after the
  other as numbered text; the result is that text and the number of such rows, and it is
  a success whenever the text is not blank. No validator, replayer or engine takes part.
  The rows \<^verbatim>\<open>[{White:"e4", Black:"e5"}, {White:"Nf3", Black:"Nc6"}]\<close> give the text
  \<^verbatim>\<open>1. e4 e5 2. Nf3 Nc6\<close> with two moves, which is also what \<^verbatim>\<open>parsePgnTextInput\<close>
  returns for that text with every engine that loads it as the four moves.
\<close>

theorem csv_rows_numbered:
  "parseCSV data =
     (if trim (csvText data) = [] then rejected (js ''No valid chess moves found in CSV'')
      else accepted (trim (csvText data)) (length (filter keptRow data)) None)
   \<and> parseCSV exampleRows = accepted (js ''1. e4 e5 2. Nf3 Nc6'') 2 None
   \<and> (loadPgn orc (js ''1. e4 e5 2. Nf3 Nc6'') = Some line4 \<longrightarrow>
        parsePgnTextInput orc (js ''1. e4 e5 2. Nf3 Nc6'') = Inr (parseCSV exampleRows))"
proof (intro conjI impI)
  show "parseCSV data =
     (if trim (csvText data) = [] then rejected (js ''No valid chess moves found in CSV'')
      else accepted (trim (csvText data)) (length (filter keptRow data)) None)"
    by (rule parseCSV_eq)
  show "parseCSV exampleRows = accepted (js ''1. e4 e5 2. Nf3 Nc6'') 2 None"
    by (rule rows_value)
  assume "loadPgn orc (js ''1. e4 e5 2. Nf3 Nc6'') = Some line4"
  then show "parsePgnTextInput orc (js ''1. e4 e5 2. Nf3 Nc6'') = Inr (parseCSV exampleRows)"
    unfolding line4_def by (rule rows_text_parse)
qed

theorem csv_rows_numbered_witness:
  "loadPgn (lineEngine line4) (js ''1. e4 e5 2. Nf3 Nc6'') = Some line4
   \<and> parsePgnTextInput (lineEngine line4) (js ''1. e4 e5 2. Nf3 Nc6'')
       = Inr (accepted (js ''1. e4 e5 2. Nf3 Nc6'') 2 None)"
proof -
  note t = csv_rows_numbered[of exampleRows "lineEngine line4"]
  from t have a: "parseCSV exampleRows = accepted (js ''1. e4 e5 2. Nf3 Nc6'') 2 None"
    by blast
  from t line4_load
  have "parsePgnTextInput (lineEngine line4) (js ''1. e4 e5 2. Nf3 Nc6'')
          = Inr (parseCSV exampleRows)"
    by blast
  with a line4_load show ?thesis by simp
qed

text \<open>
  The claim as the specification states it fails twice. A header in another letter case
  is not recognised: the rows \<^verbatim>\<open>[{WHITE:"e4", BLACK:"e5"}]\<close> are rejected. And rows are
  not validated: \<^verbatim>\<open>[{White:"Zz9", Black:"??"}]\<close> is a success with one move, where the
  text \<^verbatim>\<open>1. Zz9 ??\<close> is rejected by \<^verbatim>\<open>parsePgnTextInput\<close>.
\<close>

theorem csv_header_counterexample:
  "parseCSV [[js ''WHITE'' \<mapsto> js ''e4'', js ''BLACK'' \<mapsto> js ''e5'']]
     = rejected (js ''No valid chess moves found in CSV'')
   \<and> parseCSV [[js ''White'' \<mapsto> js ''Zz9'', js ''Black'' \<mapsto> js ''??'']]
     = accepted (js ''1. Zz9 ??'') 1 None
   \<and> parsePgnTextInput (lineEngine line4) (js ''1. Zz9 ??'')
     = Inr (rejected (js ''Unable to parse PGN. Problem detected near Zz9 (move 1).''))"
  using csv_upper_header csv_unchecked unchecked_text_rejected by simp

subsection \<open>The partial-recovery example\<close>

lemma text2_clean: "cleanPgnInput text2 = text2" by (simp add: text2_def rx_ev norm_ev)
lemma text2_norm: "normalizeCastling text2 = text2" by (simp add: text2_def rx_ev norm_ev)
lemma text2_strip: "stripPgnMetadata text2 = text2" by (simp add: text2_def rx_ev norm_ev)
lemma text2_split: "split (Plus space) text2
    = [js ''1.'', js ''e4'', js ''e5'', js ''2.'', js ''Nf3'', js ''Nc6'', js ''3.''] @ js ''Zz9'' # [js ''a6'']"
  by (simp add: text2_def rx_ev)
lemma text2_ne: "text2 \<noteq> []" by (simp add: text2_def js_def)
lemma text2_cands: "candidatesOf text2 = [text2]"
  by (simp add: candidatesOf_def text2_clean text2_norm text2_strip)
lemma text2_validated: "validatedText text2 = text2"
  by (simp add: validatedText_def text2_clean text2_norm text2_strip)
lemma text2_cleaned: "cleanedPgnOf text2 = text2"
  by (simp add: cleanedPgnOf_def text2_norm text2_strip)

lemma text2_bad:
  "move orc p (js ''Zz9'') = None \<Longrightarrow> rejectedAt orc 0 (js ''Zz9'') [p]"
proof -
  assume m: "move orc p (js ''Zz9'') = None"
  have 1: "isMoveToken (js ''Zz9'')" by (simp add: isMoveToken_def rx_ev replay_ev)
  have 2: "cleanTokenOf (js ''Zz9'') = js ''Zz9''" by (simp add: cleanTokenOf_def rx_ev replay_ev norm_ev)
  have 3: "tryOcrCorrections orc (js ''Zz9'') 0 [p] = (None, [p])"
    by (simp add: rx_ev replay_ev)
  show ?thesis by (simp add: rejectedAt_def 1 2 3 m)
qed

lemma text2_pre:
  assumes "move orc (initial orc) (js ''e4'') = Some p1" "move orc p1 (js ''e5'') = Some p2"
    "move orc p2 (js ''Nf3'') = Some p3" "move orc p3 (js ''Nc6'') = Some p4"
  shows "replayTokens orc 0 [js ''1.'', js ''e4'', js ''e5'', js ''2.'', js ''Nf3'', js ''Nc6'', js ''3.''] (Finite 1) []
           [initial orc] = Inr (line4, [], Finite 3, [p4])"
  using assms by (simp add: line4_def rx_ev replay_ev norm_ev)

lemma text2_pgn: "trim (reconstruct 1 line4) = js ''1. e4 e5 2. Nf3 Nc6''"
  by (simp add: line4_def rx_ev showNat.simps)

lemma text2_count: "ceilHalf (length line4) = 2"
  by (simp add: line4_def ceilHalf_def)


lemma replace_g_nonempty:
  "s \<noteq> [] \<Longrightarrow> (\<And>x. f x \<noteq> []) \<Longrightarrow> replace_g r f p s \<noteq> []"
  by (cases s) (auto split: option.splits)

lemma replaceAll_nonempty: "s \<noteq> [] \<Longrightarrow> t \<noteq> [] \<Longrightarrow> replaceAll r t s \<noteq> []"
  by (simp add: replaceAll_def replace_g_nonempty)

lemma normalizeCastling_nonempty: "s \<noteq> [] \<Longrightarrow> normalizeCastling s \<noteq> []"
  unfolding normalizeCastling_def Let_def
  by (intro replaceAll_nonempty) (simp_all add: js_def)

text \<open>What the replay keeps: tokens without white space, and moves taken from them.\<close>

lemma plus_space_match: "isSpace c \<Longrightarrow> \<exists>n. match_at (Plus space) p (c # cs) = Some n \<and> 0 < n"
proof -
  assume c: "isSpace c"
  have "ends (Star space) (Some c, cs) \<noteq> []"
    by (subst ends.simps(7)) simp
  then obtain e es where e: "ends (Plus space) (p, c # cs) = e # es"
    using c by (cases "ends (Star space) (Some c, cs)") (auto simp: Plus_def space_def)
  then have m: "match_at (Plus space) p (c # cs) = Some (length (c # cs) - length (snd e))"
    by (simp add: match_at_def)
  have "1 \<le> minlen (Plus space)" by (simp add: Plus_def space_def)
  with match_at_bounds[OF m] show ?thesis using m by auto
qed

lemma plus_space_none: "\<not> isSpace c \<Longrightarrow> match_at (Plus space) p (c # cs) = None"
  by (simp add: match_at_def Plus_def space_def)

lemma split_from_space:
  "\<forall>c\<in>set cur. \<not> isSpace c \<Longrightarrow>
     \<forall>t\<in>set (split_from (Plus space) p cur s). \<forall>c\<in>set t. \<not> isSpace c"
proof (induction "Plus space" p cur s rule: split_from.induct)
  case (1 p cur)
  then show ?case by simp
next
  case (2 p cur c cs)
  show ?case
  proof (cases "isSpace c")
    case False
    from "2.hyps"(1)[OF plus_space_none[OF False]] "2.prems" False
    show ?thesis by (simp add: plus_space_none[OF False])
  next
    case True
    from plus_space_match[OF True, of p cs] obtain n where
      n: "match_at (Plus space) p (c # cs) = Some n" "0 < n" by blast
    from "2.hyps"(4)[OF n(1)] n(2) "2.prems" show ?thesis
      by (simp add: n(1))
  qed
qed

lemma split_space: "\<forall>t\<in>set (split (Plus space) s). \<forall>c\<in>set t. \<not> isSpace c"
  using split_from_space[of "[]" None s] by (simp add: split_def)

lemma set_replace_g:
  assumes f: "\<And>m. set (f m) \<subseteq> set m \<union> A"
  shows "set (replace_g r f p s) \<subseteq> set s \<union> A"
  using f
proof (induction r f p s rule: replace_g.induct)
  case (1 r f p)
  show ?case using "1.prems"[of "[]"] by (auto split: option.splits)
next
  case (2 r f p c cs)
  note f = "2.prems"
  show ?case
  proof (cases "match_at r p (c # cs)")
    case None
    with "2.IH"(1)[OF None f] show ?thesis by auto
  next
    case (Some n)
    show ?thesis
    proof (cases "n = 0")
      case True
      with Some "2.IH"(2)[OF Some True f] f[of "[]"] show ?thesis by auto
    next
      case False
      have t: "set (take n (c # cs)) \<subseteq> set (c # cs)" by (rule set_take_subset)
      have d: "set (drop n (c # cs)) \<subseteq> set (c # cs)" by (rule set_drop_subset)
      from "2.IH"(3)[OF Some False f] d
      have "set (replace_g r f (Some (last (take n (c # cs)))) (drop n (c # cs))) \<subseteq> set (c # cs) \<union> A"
        by blast
      moreover from f[of "take n (c # cs)"] t have "set (f (take n (c # cs))) \<subseteq> set (c # cs) \<union> A"
        by blast
      ultimately show ?thesis using Some False by simp
    qed
  qed
qed

lemma set_replace_1:
  assumes f: "\<And>m. set (f m) \<subseteq> set m \<union> A"
  shows "set (replace_1 r f p s) \<subseteq> set s \<union> A"
proof (induction s arbitrary: p)
  case Nil
  show ?case using f[of "[]"] by (auto split: option.splits)
next
  case (Cons c cs)
  show ?case
  proof (cases "match_at r p (c # cs)")
    case None
    with Cons.IH[of "Some c"] show ?thesis by auto
  next
    case (Some n)
    have t: "set (take n (c # cs)) \<subseteq> set (c # cs)" by (rule set_take_subset)
    have d: "set (drop n (c # cs)) \<subseteq> set (c # cs)" by (rule set_drop_subset)
    from f[of "take n (c # cs)"] t have "set (f (take n (c # cs))) \<subseteq> set (c # cs) \<union> A"
      by blast
    with d show ?thesis using Some by auto
  qed
qed

lemma replace_1_nonempty:
  "s \<noteq> [] \<Longrightarrow> (\<And>x. f x \<noteq> []) \<Longrightarrow> replace_1 r f p s \<noteq> []"
  by (cases s) (auto split: option.splits)

lemma replaceAll_space:
  "\<forall>c\<in>set s. \<not> isSpace c \<Longrightarrow> \<forall>c\<in>set t. \<not> isSpace c \<Longrightarrow>
     \<forall>c\<in>set (replaceAll r t s). \<not> isSpace c"
  using set_replace_g[of "\<lambda>_. t" "set t" r None s] by (auto simp: replaceAll_def)

lemma trim_subset: "set (trim s) \<subseteq> set s"
  unfolding trim_def trimStart_def trimEnd_def by (auto dest!: set_dropWhileD)

lemma normalizeCastling_space:
  "\<forall>c\<in>set s. \<not> isSpace c \<Longrightarrow> \<forall>c\<in>set (normalizeCastling s). \<not> isSpace c"
  unfolding normalizeCastling_def Let_def
  by (intro replaceAll_space) (simp_all add: js_def isSpace_def)

lemma cleanTokenOf_spaceFree:
  assumes m: "isMoveToken m" and s: "\<forall>c\<in>set m. \<not> isSpace c"
  shows "spaceFree (cleanTokenOf m)"
proof -
  let ?t = "trim (replaceAll numDotRx [] (trim m))"
  from m have ne: "?t \<noteq> []" by (simp add: isMoveToken_def)
  have "\<forall>c\<in>set (trim m). \<not> isSpace c" using s trim_subset[of m] by blast
  then have "\<forall>c\<in>set (replaceAll numDotRx [] (trim m)). \<not> isSpace c"
    by (rule replaceAll_space) simp
  then have "\<forall>c\<in>set ?t. \<not> isSpace c"
    using trim_subset[of "replaceAll numDotRx [] (trim m)"] by blast
  then have "\<forall>c\<in>set (normalizeCastling ?t). \<not> isSpace c" by (rule normalizeCastling_space)
  with normalizeCastling_nonempty[OF ne] show ?thesis
    by (simp add: spaceFree_def cleanTokenOf_def)
qed


lemma corrections_ok: "\<forall>k\<in>set corrections. okFix k"
  by (auto simp: corrections_def okFix_def rankFix_def pieceFix_def fileFix_def charFix_def
        isSpace_def dest: in_set_takeD in_set_dropD)

lemma applyCorrection_spaceFree:
  assumes k: "okFix k" and mv: "spaceFree mv"
  shows "spaceFree (applyCorrection k mv)"
proof -
  obtain r f g where kk: "k = (r, f, g)" by (cases k)
  from k have ne: "\<And>x. f x \<noteq> []" and st: "\<And>m. set (f m) \<subseteq> set m \<union> {c. \<not> isSpace c}"
    by (auto simp: okFix_def kk)
  from mv have m: "mv \<noteq> []" "\<forall>c\<in>set mv. \<not> isSpace c" by (simp_all add: spaceFree_def)
  show ?thesis
  proof (cases g)
    case True
    from set_replace_g[of f "{c. \<not> isSpace c}" r None mv, OF st] m(2)
    have "\<forall>c\<in>set (replace_g r f None mv). \<not> isSpace c" by blast
    with replace_g_nonempty[where r=r and p=None, OF m(1) ne] show ?thesis
      by (simp add: spaceFree_def applyCorrection_def kk True)
  next
    case False
    from set_replace_1[of f "{c. \<not> isSpace c}" r None mv, OF st] m(2)
    have "\<forall>c\<in>set (replace_1 r f None mv). \<not> isSpace c" by blast
    with replace_1_nonempty[where r=r and p=None, OF m(1) ne] show ?thesis
      by (simp add: spaceFree_def applyCorrection_def kk False)
  qed
qed

lemma tryList_spaceFree:
  "tryList orc ks mv g h = (Some c, h') \<Longrightarrow> \<forall>k\<in>set ks. okFix k \<Longrightarrow> spaceFree mv \<Longrightarrow> spaceFree c"
proof (induction ks arbitrary: h)
  case Nil
  then show ?case by simp
next
  case (Cons k ks)
  from Cons.prems(2) have k: "okFix k" and ks: "\<forall>k\<in>set ks. okFix k" by simp_all
  note a = applyCorrection_spaceFree[OF k Cons.prems(3)]
  from Cons.prems(1) show ?case
    using Cons.IH[OF _ ks Cons.prems(3)] a
    by (auto simp: Let_def newChess_def chessMove_def split: if_splits option.splits prod.splits)
qed

lemma find_in: "find P xs = Some x \<Longrightarrow> x \<in> set xs"
  by (induction xs) (auto split: if_splits)

lemma disambiguate_spaceFree:
  assumes d: "disambiguate mv ins legal = Some d" and mv: "spaceFree mv"
      and i: "\<forall>c\<in>set ins. \<not> isSpace c"
  shows "spaceFree d"
proof -
  from d have "d \<in> set (map (\<lambda>file. take 1 mv @ [file] @ ins @ drop (length mv - 2) mv) (js ''abcdefgh''))
      \<or> d \<in> set (map (\<lambda>rank. take 1 mv @ [rank] @ ins @ drop (length mv - 2) mv) (js ''12345678''))"
    by (auto simp: disambiguate_def Let_def split: option.splits dest: find_in)
  then obtain x where x: "d = take 1 mv @ [x] @ ins @ drop (length mv - 2) mv"
      "x \<in> set (js ''abcdefgh'') \<or> x \<in> set (js ''12345678'')"
    by auto
  from x(2) have "\<not> isSpace x" by (auto simp: js_def isSpace_def)
  with mv i show ?thesis
    unfolding x(1) spaceFree_def by (auto dest: in_set_takeD in_set_dropD)
qed

lemma tryOcrCorrections_spaceFree:
  assumes t: "tryOcrCorrections orc mv g h = (Some c, h')" and mv: "spaceFree mv"
  shows "spaceFree c"
proof -
  have x: "\<forall>c\<in>set (js ''x''). \<not> isSpace c" by (simp add: js_def isSpace_def)
  from t show ?thesis
    unfolding tryOcrCorrections_def
    by (auto split: option.splits if_splits
          dest: disambiguate_spaceFree[OF _ mv] disambiguate_spaceFree[OF _ mv x]
                tryList_spaceFree[OF _ corrections_ok mv])
qed

lemma taken_spaceFree:
  assumes m: "isMoveToken t" and s: "\<forall>c\<in>set t. \<not> isSpace c" and a: "taken orc a t"
  shows "spaceFree a"
proof -
  note c = cleanTokenOf_spaceFree[OF m s]
  from a show ?thesis
  proof (unfold taken_def, elim disjE exE)
    assume "a = cleanTokenOf t"
    with c show ?thesis by simp
  next
    fix g h assume f: "fst (tryOcrCorrections orc (cleanTokenOf t) g h) = Some a"
    then obtain h' where "tryOcrCorrections orc (cleanTokenOf t) g h = (Some a, h')"
      by (cases "tryOcrCorrections orc (cleanTokenOf t) g h") simp
    from tryOcrCorrections_spaceFree[OF this c] show ?thesis .
  qed
qed

lemma replay_moves:
  "replayTokens orc g ts n acc h = Inr (acc', [], n', h') \<Longrightarrow>
     \<exists>new. acc' = acc @ new \<and> list_all2 (taken orc) new (filter isMoveToken ts)"
proof (induction ts arbitrary: n acc h)
  case Nil
  then show ?case by simp
next
  case (Cons m ts)
  show ?case
  proof (cases "isMoveToken m")
    case False
    with Cons.prems Cons.IH show ?thesis
      by (simp add: replay_skip del: replayTokens.simps)
  next
    case True
    show ?thesis
    proof (cases "move orc (h ! g) (cleanTokenOf m)")
      case (Some p)
      from Cons.prems have "replayTokens orc g ts n (acc @ [cleanTokenOf m]) (h[g := p])
          = Inr (acc', [], n', h')"
        by (simp only: replay_accept[OF True Some])
      from Cons.IH[OF this] obtain new where
        new: "acc' = (acc @ [cleanTokenOf m]) @ new" "list_all2 (taken orc) new (filter isMoveToken ts)"
        by blast
      have "taken orc (cleanTokenOf m) m" by (simp add: taken_def)
      with new True have "acc' = acc @ (cleanTokenOf m # new)
          \<and> list_all2 (taken orc) (cleanTokenOf m # new) (filter isMoveToken (m # ts))"
        by simp
      then show ?thesis by blast
    next
      case None
      obtain r h2 where t: "tryOcrCorrections orc (cleanTokenOf m) g h = (r, h2)"
        by (cases "tryOcrCorrections orc (cleanTokenOf m) g h")
      show ?thesis
      proof (cases r)
        case None': None
        from Cons.prems show ?thesis
          by (simp only: replay_fail[OF True None t[unfolded None']])
             (simp add: js_def)
      next
        case (Some c)
        show ?thesis
        proof (cases "move orc (h2 ! g) c")
          case None'': None
          from Cons.prems show ?thesis
            by (simp only: replay_throw[OF True None t[unfolded Some] None'']) simp
        next
          case Some': (Some p)
          from Cons.prems have "replayTokens orc g ts n (acc @ [c]) (h2[g := p])
              = Inr (acc', [], n', h')"
            by (simp only: replay_correct[OF True None t[unfolded Some] Some'])
          from Cons.IH[OF this] obtain new where
            new: "acc' = (acc @ [c]) @ new" "list_all2 (taken orc) new (filter isMoveToken ts)"
            by blast
          from t Some have "fst (tryOcrCorrections orc (cleanTokenOf m) g h) = Some c" by simp
          then have "taken orc c m" unfolding taken_def by blast
          with new True have "acc' = acc @ (c # new)
              \<and> list_all2 (taken orc) (c # new) (filter isMoveToken (m # ts))"
            by simp
          then show ?thesis by blast
        qed
      qed
    qed
  qed
qed

lemma taken_all_spaceFree:
  "list_all2 (taken orc) new toks \<Longrightarrow> \<forall>t\<in>set toks. isMoveToken t \<and> (\<forall>c\<in>set t. \<not> isSpace c) \<Longrightarrow>
     list_all spaceFree new"
  by (induction rule: list_all2_induct) (auto intro: taken_spaceFree)


lemma replay_number:
  "replayTokens orc g ts n acc h = Inr (acc', [], n', h') \<Longrightarrow>
     n' = last (n # map (\<lambda>m. parseInt (trim m)) (filter isNumberToken ts))"
proof (induction ts arbitrary: n acc h)
  case Nil
  then show ?case by simp
next
  case (Cons m ts)
  show ?case
  proof (cases "isMoveToken m")
    case False
    let ?n = "if trim m \<noteq> [] \<and> test moveNumberRx (trim m) then parseInt (trim m) else n"
    from Cons.prems have "replayTokens orc g ts ?n acc h = Inr (acc', [], n', h')"
      by (simp only: replay_skip[OF False])
    from Cons.IH[OF this] show ?thesis by (simp add: isNumberToken_def)
  next
    case True
    then have nn: "\<not> isNumberToken m" by (simp add: isMoveToken_def isNumberToken_def)
    show ?thesis
    proof (cases "move orc (h ! g) (cleanTokenOf m)")
      case (Some p)
      from Cons.prems have "replayTokens orc g ts n (acc @ [cleanTokenOf m]) (h[g := p])
          = Inr (acc', [], n', h')"
        by (simp only: replay_accept[OF True Some])
      from Cons.IH[OF this] nn show ?thesis by simp
    next
      case None
      obtain r h2 where t: "tryOcrCorrections orc (cleanTokenOf m) g h = (r, h2)"
        by (cases "tryOcrCorrections orc (cleanTokenOf m) g h")
      show ?thesis
      proof (cases r)
        case None': None
        from Cons.prems show ?thesis
          by (simp only: replay_fail[OF True None t[unfolded None']])
             (simp add: js_def)
      next
        case (Some c)
        show ?thesis
        proof (cases "move orc (h2 ! g) c")
          case None'': None
          from Cons.prems show ?thesis
            by (simp only: replay_throw[OF True None t[unfolded Some] None'']) simp
        next
          case Some': (Some p)
          from Cons.prems have "replayTokens orc g ts n (acc @ [c]) (h2[g := p])
              = Inr (acc', [], n', h')"
            by (simp only: replay_correct[OF True None t[unfolded Some] Some'])
          from Cons.IH[OF this] nn show ?thesis by simp
        qed
      qed
    qed
  qed
qed

lemma text2_plies: "plies (js ''1. e4 e5 2. Nf3 Nc6'') = line4"
  by (simp add: plies_def line4_def js_def)


text \<open>Reading the rebuilt text back gives the moves it was built from.\<close>

lemma wordsFrom_word: "\<forall>c\<in>set t. c \<noteq> 32 \<Longrightarrow> wordsFrom w (t @ s) = wordsFrom (w @ t) s"
  by (induction t arbitrary: w) simp_all

lemma wordsFrom_sep: "w \<noteq> [] \<Longrightarrow> wordsFrom w (32 # s) = w # wordsFrom [] s"
  by simp

lemma unnumber_numbered: "unnumber (numbered n acc) = acc"
  by (induction n acc rule: numbered.induct) simp_all

lemma spaceFree_32: "spaceFree m \<Longrightarrow> m \<noteq> [] \<and> (\<forall>c\<in>set m. c \<noteq> 32)"
  by (auto simp: spaceFree_def isSpace_def)

lemma showNat_32: "showNat n @ [46] \<noteq> [] \<and> (\<forall>c\<in>set (showNat n @ [46]). c \<noteq> 32)"
  using showNat_digits[of n] by (auto simp: isDigit_def)

lemma words_item: "t \<noteq> [] \<and> (\<forall>c\<in>set t. c \<noteq> 32) \<Longrightarrow> wordsFrom [] (t @ 32 # s) = t # wordsFrom [] s"
  by (simp add: wordsFrom_word)

lemma words_reconstruct:
  "list_all spaceFree acc \<Longrightarrow> wordsFrom [] (reconstruct n acc) = numbered n acc"
proof (induction n acc rule: reconstruct.induct)
  case (1 n)
  show ?case by simp
next
  case (2 n w)
  then have w: "w \<noteq> [] \<and> (\<forall>c\<in>set w. c \<noteq> 32)" by (simp add: spaceFree_32)
  have e: "reconstruct n [w] = (showNat n @ [46]) @ 32 # w @ 32 # []" by (simp add: js_def)
  show ?case
    unfolding e by (simp only: words_item[OF showNat_32] words_item[OF w]) simp
next
  case (3 n w b rest)
  then have s: "spaceFree w" "spaceFree b" and r: "list_all spaceFree rest" by simp_all
  note w = spaceFree_32[OF s(1)] and b = spaceFree_32[OF s(2)]
  have e: "reconstruct n (w # b # rest)
      = (showNat n @ [46]) @ 32 # w @ 32 # b @ 32 # reconstruct (n + 1) rest"
    using b by (simp add: js_def)
  show ?case
    unfolding e
    by (simp only: words_item[OF showNat_32] words_item[OF w] words_item[OF b] "3.IH"[OF r]
          numbered.simps)
qed

lemma wordsFrom_end: "wordsFrom w (s @ [32]) = wordsFrom w s"
  by (induction s arbitrary: w) simp_all

lemma reconstruct_shape:
  "list_all spaceFree acc \<Longrightarrow> acc \<noteq> [] \<Longrightarrow>
     \<exists>body. reconstruct n acc = body @ [32] \<and> body \<noteq> [] \<and> \<not> isSpace (hd body) \<and> \<not> isSpace (last body)"
proof (induction n acc rule: reconstruct.induct)
  case (1 n)
  then show ?case by simp
next
  case (2 n w)
  then have w: "w \<noteq> []" "\<not> isSpace (last w)" by (simp_all add: spaceFree_def)
  from showNat_digits[of n] have d: "showNat n \<noteq> []" "\<not> isSpace (hd (showNat n))"
    by (auto simp: digit_not_space)
  have "reconstruct n [w] = (showNat n @ js ''. '' @ w) @ [32]" by (simp add: js_def)
  moreover have "hd (showNat n @ js ''. '' @ w) = hd (showNat n)" using d(1) by simp
  moreover have "last (showNat n @ js ''. '' @ w) = last w" using w(1) by simp
  ultimately show ?case using d w by (intro exI[of _ "showNat n @ js ''. '' @ w"]) simp
next
  case (3 n w b rest)
  then have s: "spaceFree w" "spaceFree b" and r: "list_all spaceFree rest" by simp_all
  from s have w: "w \<noteq> []" and b: "b \<noteq> []" "\<not> isSpace (last b)"
    by (simp_all add: spaceFree_def)
  from showNat_digits[of n] have d: "showNat n \<noteq> []" "\<not> isSpace (hd (showNat n))"
    by (auto simp: digit_not_space)
  let ?h = "showNat n @ js ''. '' @ w @ js '' '' @ b"
  have hh: "hd ?h = hd (showNat n)" using d(1) by simp
  show ?case
  proof (cases "rest = []")
    case True
    have "reconstruct n (w # b # rest) = ?h @ [32]" using b True by (simp add: js_def)
    moreover have "last ?h = last b" using b(1) by simp
    ultimately show ?thesis using hh d b by (intro exI[of _ ?h]) simp
  next
    case False
    from "3.IH"[OF r False] obtain body where
      body: "reconstruct (n + 1) rest = body @ [32]" "body \<noteq> []" "\<not> isSpace (last body)"
      by blast
    have "reconstruct n (w # b # rest) = (?h @ 32 # body) @ [32]"
      using b body(1) by (simp add: js_def)
    moreover have "last (?h @ 32 # body) = last body" using body(2) by simp
    moreover have "hd (?h @ 32 # body) = hd (showNat n)" using d(1) by simp
    ultimately show ?thesis using d body by (intro exI[of _ "?h @ 32 # body"]) simp
  qed
qed

lemma trim_body:
  "body \<noteq> [] \<Longrightarrow> \<not> isSpace (hd body) \<Longrightarrow> \<not> isSpace (last body) \<Longrightarrow> trim (body @ [32]) = body"
proof -
  assume b: "body \<noteq> []" "\<not> isSpace (hd body)" "\<not> isSpace (last body)"
  have s: "isSpace 32" by (simp add: isSpace_def)
  from b have 1: "dropWhile isSpace (body @ [32]) = body @ [32]"
    by (cases body) simp_all
  from b have 2: "dropWhile isSpace (rev body) = rev body"
    by (cases "rev body") (simp_all add: last_rev[symmetric] hd_rev)
  show ?thesis
    unfolding trim_def trimStart_def trimEnd_def 1 using s 2 by simp
qed

lemma plies_reconstruct:
  assumes a: "list_all spaceFree acc"
  shows "plies (trim (reconstruct n acc)) = acc"
proof (cases "acc = []")
  case True
  then show ?thesis by (simp add: plies_def trim_def trimStart_def trimEnd_def)
next
  case False
  from reconstruct_shape[OF a False, of n] obtain body where
    body: "reconstruct n acc = body @ [32]" "body \<noteq> []" "\<not> isSpace (hd body)" "\<not> isSpace (last body)"
    by blast
  have "wordsFrom [] body = wordsFrom [] (reconstruct n acc)"
    unfolding body(1) by (rule wordsFrom_end[symmetric])
  also have "\<dots> = numbered n acc" by (rule words_reconstruct[OF a])
  finally show ?thesis
    unfolding plies_def body(1) trim_body[OF body(2,3,4)] by (simp add: unnumber_numbered)
qed

text \<open>
  C2 (as the code has it). Let the validator's token list be \<open>pre @ bad # post\<close>, where
  the replay loop passes over \<open>pre\<close> without a failure and has then accepted the moves
  \<open>acc\<close>, and where \<open>bad\<close> is rejected by the engine and cannot be repaired. Then \<open>acc\<close>
  has exactly one entry for every move token of \<open>pre\<close>, in order, each taken from its token
  (the cleaned token or its correction), and none for a token of \<open>post\<close>. If \<open>acc\<close>
  is not empty (\<open>k \<ge> 1\<close> plies), the outcome is a partial success whose text, read back
  as numbered movetext, consists of exactly the moves \<open>acc\<close>, and \<^verbatim>\<open>movesFound\<close> is the
  number of full moves \<open>\<lceil>k / 2\<rceil>\<close>, not the number of plies. If \<open>acc\<close> is empty the outcome
  is a rejection naming the token and the current move number, which is the Number read
  from the last number token of \<open>pre\<close> (1 if there is none), printed as JavaScript prints
  a Number. In particular, with every engine that plays e4, e5, Nf3, Nc6 from the
  initial position, rejects Zz9 then and does not load the whole text, the input
  \<^verbatim>\<open>1. e4 e5 2. Nf3 Nc6 3. Zz9 a6\<close> gives the partial text \<^verbatim>\<open>1. e4 e5 2. Nf3 Nc6\<close>
  with \<^verbatim>\<open>movesFound\<close> 2, and the validator names the failure \<^verbatim>\<open>Zz9 (move 3)\<close>.
\<close>

theorem partial_prefix:
  "(cleanPgnInput raw \<noteq> [] \<and> firstLoaded orc (candidatesOf raw) = None
    \<and> loadedCount orc (cleanedPgnOf (validatedText raw)) = None
    \<and> split (Plus space) (cleanedPgnOf (validatedText raw)) = pre @ bad # post
    \<and> replayTokens orc 0 pre (Finite 1) [] [initial orc] = Inr (acc, [], n, h)
    \<and> rejectedAt orc 0 bad h
    \<longrightarrow> list_all2 (taken orc) acc (filter isMoveToken pre)
      \<and> length acc = length (filter isMoveToken pre)
      \<and> n = numberAt pre
      \<and> (acc \<noteq> [] \<longrightarrow> parsePgnTextInput orc raw
            = Inr (accepted (trim (reconstruct 1 acc)) (ceilHalf (length acc)) (Some True))
          \<and> plies (trim (reconstruct 1 acc)) = acc)
      \<and> (acc = [] \<longrightarrow> parsePgnTextInput orc raw
            = Inr (rejected (js ''Unable to parse PGN. Problem detected near ''
                     @ (trim bad @ js '' (move '' @ showNumber n @ js '')'') @ js ''.''))))
   \<and> (loadPgn orc text2 = None \<and> move orc (initial orc) (js ''e4'') = Some p1
      \<and> move orc p1 (js ''e5'') = Some p2 \<and> move orc p2 (js ''Nf3'') = Some p3
      \<and> move orc p3 (js ''Nc6'') = Some p4 \<and> move orc p4 (js ''Zz9'') = None
    \<longrightarrow> parsePgnTextInput orc text2
          = Inr (accepted (js ''1. e4 e5 2. Nf3 Nc6'') 2 (Some True))
      \<and> plies (js ''1. e4 e5 2. Nf3 Nc6'') = [js ''e4'', js ''e5'', js ''Nf3'', js ''Nc6'']
      \<and> validatePgnWithDetails orc text2
          = Inr \<lparr>valid = False, failedAt = Some (js ''Zz9 (move 3)''),
                  partialPgn = Some (js ''1. e4 e5 2. Nf3 Nc6''), moveCount = 2\<rparr>)"
proof -
  have general: "list_all2 (taken orc) acc (filter isMoveToken pre)
      \<and> length acc = length (filter isMoveToken pre)
      \<and> n = numberAt pre
      \<and> (acc \<noteq> [] \<longrightarrow> parsePgnTextInput orc raw
            = Inr (accepted (trim (reconstruct 1 acc)) (ceilHalf (length acc)) (Some True))
          \<and> plies (trim (reconstruct 1 acc)) = acc)
      \<and> (acc = [] \<longrightarrow> parsePgnTextInput orc raw
            = Inr (rejected (js ''Unable to parse PGN. Problem detected near ''
                     @ (trim bad @ js '' (move '' @ showNumber n @ js '')'') @ js ''.'')))"
    if c: "cleanPgnInput raw \<noteq> []" and fl: "firstLoaded orc (candidatesOf raw) = None"
      and lc: "loadedCount orc (cleanedPgnOf (validatedText raw)) = None"
      and toks: "split (Plus space) (cleanedPgnOf (validatedText raw)) = pre @ bad # post"
      and pre: "replayTokens orc 0 pre (Finite 1) [] [initial orc] = Inr (acc, [], n, h)"
      and bad: "rejectedAt orc 0 bad h"
    for raw :: jsstring and orc :: "'a engine" and pre bad post acc n h
  proof -
    let ?fa = "trim bad @ js '' (move '' @ showNumber n @ js '')''"
    from replay_stops[OF pre bad, of post] obtain h'' where
      r: "replayTokens orc 0 (split (Plus space) (cleanedPgnOf (validatedText raw))) (Finite 1) []
            [initial orc] = Inr (acc, ?fa, n, h'')"
      unfolding toks by blast
    have fa: "?fa \<noteq> []" by (rule failure_text_nonempty)
    from replay_moves[OF pre] have 0: "list_all2 (taken orc) acc (filter isMoveToken pre)"
      by simp
    then have 1: "length acc = length (filter isMoveToken pre)"
      by (rule list_all2_lengthD)
    have n: "n = numberAt pre"
      using replay_number[OF pre] by (simp add: numberAt_def)
    have "\<forall>t\<in>set pre. \<forall>c\<in>set t. \<not> isSpace c"
      using split_space[of "cleanedPgnOf (validatedText raw)"] unfolding toks by auto
    then have "\<forall>t\<in>set (filter isMoveToken pre). isMoveToken t \<and> (\<forall>c\<in>set t. \<not> isSpace c)"
      by auto
    from taken_all_spaceFree[OF 0 this] have sf: "list_all spaceFree acc" .
    have 2: "parsePgnTextInput orc raw
            = Inr (accepted (trim (reconstruct 1 acc)) (ceilHalf (length acc)) (Some True))"
      if ne: "acc \<noteq> []"
    proof -
      have v: "validatePgnWithDetails orc (validatedText raw)
             = Inr \<lparr>valid = False, failedAt = Some ?fa,
                     partialPgn = Some (trim (reconstruct 1 acc)),
                     moveCount = ceilHalf (length acc)\<rparr>"
        using validate_replayed[OF lc r ne] fa by simp
      have pos: "0 < ceilHalf (length acc)"
        using ne by (cases acc) (simp_all add: ceilHalf_def)
      show ?thesis
        using parse_partial[OF c fl v _ _ reconstruct_nonempty[OF ne]] pos by simp
    qed
    have 3: "parsePgnTextInput orc raw
            = Inr (rejected (js ''Unable to parse PGN. Problem detected near '' @ ?fa @ js ''.''))"
      if e: "acc = []"
    proof -
      have v: "validatePgnWithDetails orc (validatedText raw)
             = Inr \<lparr>valid = False, failedAt = Some ?fa, partialPgn = None, moveCount = 0\<rparr>"
        using validate_nothing[OF lc r[unfolded e]] fa by simp
      show ?thesis
        using parse_nothing[OF c fl v _ _ _ fa] by simp
    qed
    from 0 1 n 2 3 plies_reconstruct[OF sf, of 1] show ?thesis by blast
  qed
  have example: "parsePgnTextInput orc text2
          = Inr (accepted (js ''1. e4 e5 2. Nf3 Nc6'') 2 (Some True))
      \<and> plies (js ''1. e4 e5 2. Nf3 Nc6'') = [js ''e4'', js ''e5'', js ''Nf3'', js ''Nc6'']
      \<and> validatePgnWithDetails orc text2
          = Inr \<lparr>valid = False, failedAt = Some (js ''Zz9 (move 3)''),
                  partialPgn = Some (js ''1. e4 e5 2. Nf3 Nc6''), moveCount = 2\<rparr>"
    if l: "loadPgn orc text2 = None" and m1: "move orc (initial orc) (js ''e4'') = Some p1"
      and m2: "move orc p1 (js ''e5'') = Some p2" and m3: "move orc p2 (js ''Nf3'') = Some p3"
      and m4: "move orc p3 (js ''Nc6'') = Some p4" and m5: "move orc p4 (js ''Zz9'') = None"
  proof -
    have c: "cleanPgnInput text2 \<noteq> []" unfolding text2_clean by (rule text2_ne)
    have fl: "firstLoaded orc (candidatesOf text2) = None" by (simp add: text2_cands l)
    have lc: "loadedCount orc (cleanedPgnOf (validatedText text2)) = None"
      by (simp add: loadedCount_def text2_validated text2_cleaned l)
    have toks: "split (Plus space) (cleanedPgnOf (validatedText text2))
        = [js ''1.'', js ''e4'', js ''e5'', js ''2.'', js ''Nf3'', js ''Nc6'', js ''3.'']
          @ js ''Zz9'' # [js ''a6'']"
      unfolding text2_validated text2_cleaned by (rule text2_split)
    note pre = text2_pre[OF m1 m2 m3 m4]
    note bad = text2_bad[OF m5]
    have ne: "line4 \<noteq> []" by (simp add: line4_def)
    from general[OF c fl lc toks pre bad] ne
    have p: "parsePgnTextInput orc text2
        = Inr (accepted (trim (reconstruct 1 line4)) (ceilHalf (length line4)) (Some True))"
      by blast
    from replay_stops[OF pre bad, of "[js ''a6'']"] obtain h'' where
      r: "replayTokens orc 0 (split (Plus space) (cleanedPgnOf text2)) (Finite 1) [] [initial orc]
            = Inr (line4, trim (js ''Zz9'') @ js '' (move '' @ showNumber (Finite 3) @ js '')'', Finite 3, h'')"
      unfolding text2_cleaned text2_split by blast
    have t: "trim (js ''Zz9'') @ js '' (move '' @ showNumber (Finite 3) @ js '')'' = js ''Zz9 (move 3)''"
      by (simp add: rx_ev showNat.simps showNumber_small)
    have f: "js ''Zz9 (move 3)'' \<noteq> []" by (simp add: js_def)
    have v: "validatePgnWithDetails orc text2
          = Inr \<lparr>valid = False, failedAt = Some (js ''Zz9 (move 3)''),
                  partialPgn = Some (js ''1. e4 e5 2. Nf3 Nc6''), moveCount = 2\<rparr>"
      using validate_replayed[OF lc[unfolded text2_validated] r[unfolded t] ne] f
      unfolding text2_pgn text2_count by simp
    have pl: "plies (js ''1. e4 e5 2. Nf3 Nc6'') = [js ''e4'', js ''e5'', js ''Nf3'', js ''Nc6'']"
      using text2_plies unfolding line4_def .
    from p v have "parsePgnTextInput orc text2
          = Inr (accepted (js ''1. e4 e5 2. Nf3 Nc6'') 2 (Some True))
      \<and> validatePgnWithDetails orc text2
          = Inr \<lparr>valid = False, failedAt = Some (js ''Zz9 (move 3)''),
                  partialPgn = Some (js ''1. e4 e5 2. Nf3 Nc6''), moveCount = 2\<rparr>"
      unfolding text2_pgn text2_count by simp
    with pl show ?thesis by blast
  qed
  from general example show ?thesis by blast
qed

lemma line4_text2: "loadPgn (lineEngine line4) text2 = None"
  by (simp add: text2_def line4_def rx_ev replay_ev)


theorem partial_prefix_witness:
  "loadPgn (lineEngine line4) text2 = None
   \<and> move (lineEngine line4) (initial (lineEngine line4)) (js ''e4'') = Some 1
   \<and> move (lineEngine line4) 1 (js ''e5'') = Some 2
   \<and> move (lineEngine line4) 2 (js ''Nf3'') = Some 3
   \<and> move (lineEngine line4) 3 (js ''Nc6'') = Some 4
   \<and> move (lineEngine line4) 4 (js ''Zz9'') = None
   \<and> parsePgnTextInput (lineEngine line4) text2
       = Inr (accepted (js ''1. e4 e5 2. Nf3 Nc6'') 2 (Some True))
   \<and> plies (js ''1. e4 e5 2. Nf3 Nc6'') = [js ''e4'', js ''e5'', js ''Nf3'', js ''Nc6'']
   \<and> validatePgnWithDetails (lineEngine line4) text2
       = Inr \<lparr>valid = False, failedAt = Some (js ''Zz9 (move 3)''),
               partialPgn = Some (js ''1. e4 e5 2. Nf3 Nc6''), moveCount = 2\<rparr>"
proof -
  have m: "move (lineEngine line4) (initial (lineEngine line4)) (js ''e4'') = Some 1"
    "move (lineEngine line4) 1 (js ''e5'') = Some 2"
    "move (lineEngine line4) 2 (js ''Nf3'') = Some 3"
    "move (lineEngine line4) 3 (js ''Nc6'') = Some 4"
    "move (lineEngine line4) 4 (js ''Zz9'') = None"
    by (simp_all add: lineEngine_def line4_def js_def)
  from partial_prefix[of text2 "lineEngine line4" "[]" "[]" "[]" "[]" "Finite 0" "[]" 1 2 3 4]
    line4_text2 m
  show ?thesis by blast
qed

text \<open>
  The move number of the failure text is a double: \<^verbatim>\<open>9007199254740993.\<close> is read as
  \<open>2\<^sup>5\<^sup>3\<close> and printed as \<^verbatim>\<open>9007199254740992\<close>.
\<close>

lemma toNumber_54:
  assumes lo: "2 ^ 53 \<le> n" and hi: "n < 2 ^ 54"
  shows "toNumber n = Finite (if even n then n else if odd (n div 2) then n + 1 else n - 1)"
proof -
  from bitlen_gt[OF lo] bitlen_le[OF hi] have b: "bitlen n - 53 = 1" by simp
  have r: "roundTo 1 n = (if even n then n else if odd (n div 2) then n + 1 else n - 1)"
  proof (cases "even n")
    case True
    then show ?thesis by (auto simp: roundTo_def Let_def)
  next
    case False
    then have m: "n mod 2 = 1" by presburger
    from False have n: "n = n div 2 * 2 + 1" by presburger
    show ?thesis
    proof (cases "odd (n div 2)")
      case True
      with False m n show ?thesis by (simp add: roundTo_def Let_def)
    next
      case e: False
      with False m n show ?thesis by (simp add: roundTo_def Let_def)
    qed
  qed
  have "(2::nat) ^ 54 + 1 \<le> 2 ^ 1024" by simp
  with hi have "(if even n then n else if odd (n div 2) then n + 1 else n - 1) < 2 ^ 1024"
    by auto
  then show ?thesis unfolding toNumber_def b r Let_def by simp
qed

lemma big_number_parsed: "parseInt (js ''9007199254740993.'') = Finite 9007199254740992"
proof -
  have "parseInt (js ''9007199254740993.'') = toNumber 9007199254740993"
    by (simp add: parseInt_def digitsValue_def js_def isDigit_def Let_def)
  also have "\<dots> = Finite 9007199254740992"
    by (subst toNumber_54) simp_all
  finally show ?thesis .
qed

lemma big_number_printed: "showNumber (Finite 9007199254740992) = js ''9007199254740992''"
proof -
  have s: "showNat 9007199254740992 = js ''9007199254740992''"
    by (simp add: showNat.simps js_def)
  have l: "length (js ''9007199254740992'') - 1 = 15" by (simp add: js_def)
  have p: "pick 9007199254740992 (10 ^ k) = None" if "k \<in> {1..15}" for k
  proof -
    from that have "k = 1 \<or> k = 2 \<or> k = 3 \<or> k = 4 \<or> k = 5 \<or> k = 6 \<or> k = 7 \<or> k = 8 \<or> k = 9
      \<or> k = 10 \<or> k = 11 \<or> k = 12 \<or> k = 13 \<or> k = 14 \<or> k = 15" by simp arith
    then show ?thesis
      by (elim disjE) (simp_all add: pick_def Let_def toNumber_small toNumber_54)
  qed
  have "shortestFrom 9007199254740992 j = 9007199254740992" if "j \<le> 15" for j
    using that
  proof (induction j)
    case 0
    show ?case by simp
  next
    case (Suc j)
    have "pick 9007199254740992 (10 ^ Suc j) = None" by (rule p) (use Suc.prems in simp)
    moreover have "shortestFrom 9007199254740992 j = 9007199254740992" using Suc by simp
    ultimately show ?case by (simp only: shortestFrom.simps option.case)
  qed
  then have "shortestFrom 9007199254740992 15 = 9007199254740992" by simp
  then have "shortest 9007199254740992 = 9007199254740992"
    unfolding shortest_def s l .
  then show ?thesis
    by (simp add: showNumber_def showDecimal_def s Let_def) (simp add: js_def)
qed

lemma text2_line4_parse:
  "parsePgnTextInput (lineEngine line4) text2
     = Inr (accepted (js ''1. e4 e5 2. Nf3 Nc6'') 2 (Some True))"
proof -
  have c: "cleanPgnInput text2 \<noteq> []" unfolding text2_clean by (rule text2_ne)
  have fl: "firstLoaded (lineEngine line4) (candidatesOf text2) = None"
    by (simp add: text2_cands line4_text2)
  have lc: "loadedCount (lineEngine line4) (cleanedPgnOf text2) = None"
    by (simp add: loadedCount_def text2_cleaned line4_text2)
  have r: "replayTokens (lineEngine line4) 0 (split (Plus space) (cleanedPgnOf text2)) (Finite 1) []
             [initial (lineEngine line4)] = Inr (line4, js ''Zz9 (move 3)'', Finite 3, [4])"
    unfolding text2_cleaned text2_split by (simp add: line4_def rx_ev replay_ev norm_ev)
  have ne: "line4 \<noteq> []" by (simp add: line4_def)
  have f: "js ''Zz9 (move 3)'' \<noteq> []" by (simp add: js_def)
  have v: "validatePgnWithDetails (lineEngine line4) (validatedText text2)
          = Inr \<lparr>valid = False, failedAt = Some (js ''Zz9 (move 3)''),
                  partialPgn = Some (js ''1. e4 e5 2. Nf3 Nc6''), moveCount = 2\<rparr>"
    using validate_replayed[OF lc r ne] f
    unfolding text2_validated text2_pgn text2_count by simp
  have t: "js ''1. e4 e5 2. Nf3 Nc6'' \<noteq> []" by (simp add: js_def)
  show ?thesis using parse_partial[OF c fl v _ _ t] by simp
qed


text \<open>
  The claim as the specification states it asks for an accepted move count of 4 on this
  input; the code reports 2.
\<close>

theorem partial_count_counterexample:
  "parsePgnTextInput (lineEngine line4) text2
     = Inr (accepted (js ''1. e4 e5 2. Nf3 Nc6'') 2 (Some True))"
  by (rule text2_line4_parse)

subsection \<open>The corrector and the store\<close>

lemma tryList_extends: "\<exists>extra. snd (tryList orc ks mv g h) = h @ extra"
proof (induction ks arbitrary: h)
  case Nil
  then show ?case by simp
next
  case (Cons k ks)
  show ?case
  proof (cases "applyCorrection k mv \<noteq> mv")
    case False
    then show ?thesis using Cons.IH[of h] by simp
  next
    case True
    show ?thesis
    proof (cases "fromFen orc (fen orc (h ! g))")
      case None
      then show ?thesis using True Cons.IH[of h] by simp
    next
      case (Some p)
      show ?thesis
      proof (cases "move orc p (applyCorrection k mv)")
        case None
        from Cons.IH[of "h @ [p]"] obtain extra where
          "snd (tryList orc ks mv g (h @ [p])) = h @ [p] @ extra" by auto
        then show ?thesis using True Some None
          by (simp add: Let_def newChess_def chessMove_def)
      next
        case (Some p')
        then show ?thesis using True \<open>fromFen orc (fen orc (h ! g)) = Some p\<close>
          by (simp add: Let_def newChess_def chessMove_def)
      qed
    qed
  qed
qed

lemma tryOcrCorrections_extends: "\<exists>extra. snd (tryOcrCorrections orc mv g h) = h @ extra"
  using tryList_extends[of orc corrections mv g h]
  by (auto simp: tryOcrCorrections_def split: option.splits)

lemma corrector_example:
  "tryOcrCorrections (lineEngine line4) (js ''Nf4'') 0 [2] = (Some (js ''Nf3''), [2, 3])"
  by (simp add: line4_def rx_ev replay_ev)

lemma corrector_example_token:
  "isMoveToken (js ''Nf4'')" "cleanTokenOf (js ''Nf4'') = js ''Nf4''"
  by (simp_all add: isMoveToken_def cleanTokenOf_def rx_ev replay_ev norm_ev)

text \<open>
  C9. \<^verbatim>\<open>tryOcrCorrections\<close> leaves the board it is handed as it was: for every engine,
  token and store in which \<open>g\<close> is a live object, the store after the call agrees with
  the store before it on every object that existed (the call only adds objects, the
  copies made with \<^verbatim>\<open>new Chess(chess.fen())\<close>), so the position of \<open>g\<close> and its FEN are
  the same, whether a replacement is returned or not. The accepted correction is applied to
  the live board by the replay loop: after the corrector returns \<open>c\<close>, the loop goes on
  with the board of \<open>g\<close> moved by \<open>c\<close>. (\<^verbatim>\<open>moves()\<close> and \<^verbatim>\<open>fen()\<close> are read-only calls
  of the engine.)
\<close>

theorem corrector_frame:
  "(g < length h \<and> tryOcrCorrections orc mv g h = (res, h')
     \<longrightarrow> take (length h) h' = h \<and> h' ! g = h ! g \<and> fen orc (h' ! g) = fen orc (h ! g))
   \<and> (isMoveToken m \<and> move orc (h ! g) (cleanTokenOf m) = None
       \<and> tryOcrCorrections orc (cleanTokenOf m) g h = (Some c, h2)
       \<and> move orc (h2 ! g) c = Some p
     \<longrightarrow> replayTokens orc g (m # ms) n acc h = replayTokens orc g ms n (acc @ [c]) (h2[g := p]))"
proof (intro conjI impI)
  assume a: "g < length h \<and> tryOcrCorrections orc mv g h = (res, h')"
  from tryOcrCorrections_extends[of orc mv g h] a obtain extra where e: "h' = h @ extra"
    by auto
  show "take (length h) h' = h" by (simp add: e)
  from a show "h' ! g = h ! g" by (simp add: e nth_append)
  then show "fen orc (h' ! g) = fen orc (h ! g)" by simp
next
  assume "isMoveToken m \<and> move orc (h ! g) (cleanTokenOf m) = None
       \<and> tryOcrCorrections orc (cleanTokenOf m) g h = (Some c, h2)
       \<and> move orc (h2 ! g) c = Some p"
  then show "replayTokens orc g (m # ms) n acc h = replayTokens orc g ms n (acc @ [c]) (h2[g := p])"
    by (elim conjE) (rule replay_correct)
qed

theorem corrector_frame_witness:
  "(0::nat) < length [2::nat]
   \<and> tryOcrCorrections (lineEngine line4) (js ''Nf4'') 0 [2] = (Some (js ''Nf3''), [2, 3])
   \<and> take (length [2::nat]) [2, 3::nat] = [2]
   \<and> fen (lineEngine line4) ([2, 3] ! 0) = fen (lineEngine line4) ([2] ! 0)
   \<and> move (lineEngine line4) ([2] ! 0) (js ''Nf4'') = None
   \<and> move (lineEngine line4) ([2, 3] ! 0) (js ''Nf3'') = Some 3
   \<and> replayTokens (lineEngine line4) 0 [js ''Nf4''] (Finite 2) [js ''e4'', js ''e5''] [2]
       = replayTokens (lineEngine line4) 0 [] (Finite 2) ([js ''e4'', js ''e5''] @ [js ''Nf3''])
           ([2, 3][0 := 3])"
proof -
  have m: "move (lineEngine line4) ([2] ! 0) (js ''Nf4'') = None"
    "move (lineEngine line4) ([2, 3] ! 0) (js ''Nf3'') = Some 3"
    by (simp_all add: lineEngine_def line4_def js_def)
  note t = corrector_frame[of 0 "[2]" "lineEngine line4" "js ''Nf4''" "Some (js ''Nf3'')" "[2, 3]"
      "js ''Nf4''" "js ''Nf3''" "[2, 3]" 3 "[]" "Finite 2" "[js ''e4'', js ''e5'']"]
  from t corrector_example corrector_example_token m show ?thesis by simp
qed

subsection \<open>A successful outcome carries text\<close>

lemma firstLoaded_Some:
  "firstLoaded orc cs = Some hist \<Longrightarrow> hist \<noteq> [] \<and> (\<exists>c\<in>set cs. loadPgn orc c = Some hist)"
  by (induction cs) (auto split: option.splits if_splits)

lemma firstLoaded_None:
  "firstLoaded orc cs = None \<Longrightarrow> c \<in> set cs \<Longrightarrow> loadPgn orc c = None \<or> loadPgn orc c = Some []"
  by (induction cs) (auto split: option.splits if_splits)

lemma validatedText_candidate: "validatedText raw \<in> set (candidatesOf raw)"
  by (simp add: validatedText_def candidatesOf_def Let_def)

lemma validatedText_nonempty: "cleanPgnInput raw \<noteq> [] \<Longrightarrow> validatedText raw \<noteq> []"
  by (simp add: validatedText_def Let_def normalizeCastling_nonempty)

lemma in_trimEnd: "c \<in> set s \<Longrightarrow> \<not> isSpace c \<Longrightarrow> c \<in> set (trimEnd s)"
  by (simp add: trimEnd_def in_dropWhile)

lemma segments_first:
  "hist \<noteq> [] \<Longrightarrow> [] \<notin> set hist \<Longrightarrow>
     \<exists>c seg rest. segments n hist = seg # rest \<and> c \<in> set seg \<and> \<not> isSpace c"
proof -
  assume h: "hist \<noteq> []" "[] \<notin> set hist"
  from showNat_digits[of n] obtain c where c: "c \<in> set (showNat n)" "isDigit c"
    by (cases "showNat n") auto
  then have ns: "\<not> isSpace c" by (simp add: digit_not_space)
  have t: "c \<in> set (trimEnd (showNat n @ js ''. '' @ w))" for w
    using c(1) ns by (intro in_trimEnd) auto
  from h show ?thesis
  proof (cases "(n, hist)" rule: segments.cases)
    case (1 n')
    with h show ?thesis by simp
  next
    case (2 n' w)
    with h t[of w] ns show ?thesis by auto
  next
    case (3 n' w b rest)
    with h t[of w] ns show ?thesis by auto
  qed
qed

lemma joinWith_first: "c \<in> set seg \<Longrightarrow> c \<in> set (joinWith sep (seg # rest))"
  by (cases rest) auto

lemma formatHistoryAsPgn_nonempty:
  "hist \<noteq> [] \<Longrightarrow> [] \<notin> set hist \<Longrightarrow> formatHistoryAsPgn hist \<noteq> []"
proof -
  assume h: "hist \<noteq> []" "[] \<notin> set hist"
  from segments_first[OF h, of 1] obtain c seg rest where
    s: "segments 1 hist = seg # rest" "c \<in> set seg" "\<not> isSpace c" by blast
  from joinWith_first[OF s(2), of "js '' ''" rest] s(3)
  have "trim (joinWith (js '' '') (seg # rest)) \<noteq> []" by (rule trim_nonempty)
  with h(1) s(1) show ?thesis by (simp add: formatHistoryAsPgn_def)
qed

lemma ceilHalf_pos: "xs \<noteq> [] \<Longrightarrow> 1 \<le> ceilHalf (length xs)"
  by (cases xs) (simp_all add: ceilHalf_def)

lemma validate_valid_count:
  "validatePgnWithDetails orc src = Inr v \<Longrightarrow> valid v \<Longrightarrow> 1 \<le> moveCount v"
  unfolding validatePgnWithDetails_def Let_def
  by (auto split: option.splits if_splits sum.splits prod.splits simp: newChess_def)

lemma lineLoad_san: "loadPgn (lineEngine line) t = Some hist \<Longrightarrow> [] \<notin> set hist"
  by (auto simp: lineEngine_def lineLoad_def Let_def split: if_splits)

text \<open>
  C10. For every input and every engine whose move histories contain no empty move text
  (the engine writes every move in algebraic notation), if \<^verbatim>\<open>parsePgnTextInput\<close> resolves
  with \<^verbatim>\<open>success: true\<close> then \<^verbatim>\<open>pgn\<close> is present and not the empty string and
  \<^verbatim>\<open>movesFound\<close> is present and at least 1.
\<close>

theorem success_has_text:
  assumes san: "\<forall>t hist. loadPgn orc t = Some hist \<longrightarrow> [] \<notin> set hist"
      and res: "parsePgnTextInput orc raw = Inr r" and ok: "success r"
  shows "(\<exists>t. pgn r = Some t \<and> t \<noteq> []) \<and> (\<exists>k. movesFound r = Some k \<and> 1 \<le> k)"
proof (cases "cleanPgnInput raw = []")
  case True
  with res ok show ?thesis by (auto simp: parse_empty rejected_def)
next
  case c: False
  show ?thesis
  proof (cases "firstLoaded orc (candidatesOf raw)")
    case (Some hist)
    from firstLoaded_Some[OF Some] san have h: "hist \<noteq> []" "[] \<notin> set hist" by auto
    from res parse_loaded[OF c Some]
    have "r = accepted (formatHistoryAsPgn hist) (ceilHalf (length hist)) None" by simp
    with formatHistoryAsPgn_nonempty[OF h] ceilHalf_pos[OF h(1)] show ?thesis
      by (simp add: accepted_def)
  next
    case None
    show ?thesis
    proof (cases "validatePgnWithDetails orc (validatedText raw)")
      case (Inl e)
      with res parse_throws[OF c None Inl] show ?thesis by simp
    next
      case (Inr v)
      show ?thesis
      proof (cases "valid v")
        case True
        from res parse_validated[OF c None Inr True]
        have "r = accepted (validatedText raw) (moveCount v) None" by simp
        with validatedText_nonempty[OF c] validate_valid_count[OF Inr True] show ?thesis
          by (simp add: accepted_def)
      next
        case False
        from res ok c None Inr False show ?thesis
          unfolding parsePgnTextInput_def Let_def candidatesOf_def validatedText_def
          by (auto simp: accepted_def rejected_def split: option.splits if_splits)
      qed
    qed
  qed
qed

theorem success_has_text_witness:
  "parsePgnTextInput (lineEngine line4) text2
       = Inr (accepted (js ''1. e4 e5 2. Nf3 Nc6'') 2 (Some True))
   \<and> success (accepted (js ''1. e4 e5 2. Nf3 Nc6'') 2 (Some True))
   \<and> (\<exists>t. pgn (accepted (js ''1. e4 e5 2. Nf3 Nc6'') 2 (Some True)) = Some t \<and> t \<noteq> [])
   \<and> (\<exists>k. movesFound (accepted (js ''1. e4 e5 2. Nf3 Nc6'') 2 (Some True)) = Some k \<and> 1 \<le> k)"
proof -
  have san: "\<forall>t hist. loadPgn (lineEngine line4) t = Some hist \<longrightarrow> [] \<notin> set hist"
    using lineLoad_san by blast
  have ok: "success (accepted (js ''1. e4 e5 2. Nf3 Nc6'') 2 (Some True))"
    by (simp add: accepted_def)
  from success_has_text[OF san text2_line4_parse ok] text2_line4_parse ok
  show ?thesis by blast
qed

subsection \<open>The text returned for a game that the validator completes\<close>

lemma text7_clean: "cleanPgnInput text7 = text7" by (simp add: text7_def rx_ev norm_ev)
lemma text7_norm: "normalizeCastling text7 = text7" by (simp add: text7_def rx_ev norm_ev)
lemma text7_strip: "stripPgnMetadata text7 = stripped7" by (simp add: text7_def stripped7_def rx_ev norm_ev)
lemma stripped7_norm: "normalizeCastling stripped7 = castled7" by (simp add: castled7_def stripped7_def rx_ev norm_ev)
lemma castled7_strip: "stripPgnMetadata castled7 = castled7" by (simp add: castled7_def rx_ev norm_ev)
lemma text7_load: "loadPgn (lineEngine line7) text7 = None" by (simp add: text7_def line7_def rx_ev replay_ev)
lemma stripped7_load: "loadPgn (lineEngine line7) stripped7 = None" by (simp add: stripped7_def line7_def rx_ev replay_ev)
lemma castled7_load: "loadPgn (lineEngine line7) castled7 = Some line7" by (simp add: castled7_def line7_def rx_ev replay_ev)

lemma text7_facts:
  "cleanPgnInput text7 \<noteq> []" "candidatesOf text7 = [text7, stripped7]"
  "validatedText text7 = stripped7" "cleanedPgnOf stripped7 = castled7"
  by (simp_all add: candidatesOf_def validatedText_def cleanedPgnOf_def text7_clean text7_norm
      text7_strip stripped7_norm castled7_strip)
     (simp_all add: text7_def stripped7_def js_def)

lemma text7_validate:
  "validatePgnWithDetails (lineEngine line7) (validatedText text7)
     = Inr \<lparr>valid = True, failedAt = None, partialPgn = None, moveCount = 4\<rparr>"
proof -
  have "loadedCount (lineEngine line7) (cleanedPgnOf stripped7) = Some 4"
    by (simp add: loadedCount_def text7_facts castled7_load) (simp add: line7_def ceilHalf_def)
  from validate_loaded[OF this] show ?thesis by (simp add: text7_facts)
qed

lemma text7_first: "firstLoaded (lineEngine line7) (candidatesOf text7) = None"
  by (simp add: text7_facts text7_load stripped7_load)

text \<open>
  C1 asks that the text of every successful outcome be rebuilt from the accepted moves and
  be replayable. The code breaks this on one branch. When \<^verbatim>\<open>loadPgn\<close> reads none of
  the candidates but the validator, which normalizes and strips its argument once more,
  reports a complete game, \<^verbatim>\<open>parsePgnTextInput\<close> returns \<^verbatim>\<open>stripped || normalizedInput\<close>:
  a piece of the input text and one of the candidates that \<^verbatim>\<open>loadPgn\<close> has just failed
  to read (it threw, or it read no move). The other two branches return the text rebuilt
  from the history or from the accepted moves.
\<close>

theorem validated_text_not_replayable:
  assumes c: "cleanPgnInput raw \<noteq> []" and fl: "firstLoaded orc (candidatesOf raw) = None"
      and v: "validatePgnWithDetails orc (validatedText raw) = Inr v" and ok: "valid v"
  shows "parsePgnTextInput orc raw = Inr (accepted (validatedText raw) (moveCount v) None)
     \<and> (loadPgn orc (validatedText raw) = None \<or> loadPgn orc (validatedText raw) = Some [])"
  using parse_validated[OF c fl v ok] firstLoaded_None[OF fl validatedText_candidate] by simp

theorem validated_text_not_replayable_witness:
  "cleanPgnInput text7 \<noteq> [] \<and> firstLoaded (lineEngine line7) (candidatesOf text7) = None
   \<and> validatePgnWithDetails (lineEngine line7) (validatedText text7)
       = Inr \<lparr>valid = True, failedAt = None, partialPgn = None, moveCount = 4\<rparr>
   \<and> parsePgnTextInput (lineEngine line7) text7 = Inr (accepted stripped7 4 None)
   \<and> loadPgn (lineEngine line7) stripped7 = None"
  using validated_text_not_replayable[OF text7_facts(1) text7_first text7_validate]
    text7_facts text7_first text7_validate stripped7_load
  by simp


subsection \<open>The metadata stripper on plain text\<close>

lemma star_space_first:
  "\<exists>q more. ends (Star space) (p, cs) = (q, dropWhile isSpace cs) # more"
proof (induction cs arbitrary: p)
  case Nil
  show ?case by (subst ends.simps(7)) (simp add: space_def)
next
  case (Cons d ds)
  show ?case
  proof (cases "isSpace d")
    case False
    then show ?thesis by (subst ends.simps(7)) (simp add: space_def)
  next
    case True
    from Cons.IH[of "Some d"] obtain q more where
      "ends (Star space) (Some d, ds) = (q, dropWhile isSpace ds) # more" by blast
    with True show ?thesis by (subst ends.simps(7)) (simp add: space_def)
  qed
qed

lemma match_at_spaces:
  "match_at (Plus space) p (c # cs) =
     (if isSpace c then Some (Suc (length cs) - length (dropWhile isSpace cs)) else None)"
proof (cases "isSpace c")
  case False
  then show ?thesis by (simp add: match_at_def Plus_def space_def)
next
  case True
  from star_space_first[of "Some c" cs] obtain q more where
    "ends (Star space) (Some c, cs) = (q, dropWhile isSpace cs) # more" by blast
  with True show ?thesis
    by (simp add: match_at_def Plus_def) (simp add: space_def)
qed

lemma replace_spaces: "replace_g (Plus space) (\<lambda>_. [32]) p s = collapse s"
proof (induction s arbitrary: p rule: collapse.induct)
  case 1
  show ?case by (simp add: match_at_Nil Plus_def space_def)
next
  case (2 c cs)
  show ?case
  proof (cases "isSpace c")
    case False
    with 2 show ?thesis by (simp add: match_at_spaces)
  next
    case True
    let ?n = "Suc (length cs) - length (dropWhile isSpace cs)"
    have le: "length (dropWhile isSpace cs) \<le> length cs" by (rule length_dropWhile_le)
    then have n0: "?n \<noteq> 0" by simp
    have "length (takeWhile isSpace cs) + length (dropWhile isSpace cs) = length cs"
      by (metis length_append takeWhile_dropWhile_id)
    then have n: "?n = Suc (length (takeWhile isSpace cs))" by simp
    have d: "drop ?n (c # cs) = dropWhile isSpace cs"
      unfolding n by (simp add: dropWhile_eq_drop)
    show ?thesis
      using True n0 "2.IH"(1)[OF True] by (simp add: match_at_spaces d del: drop_Suc_Cons)
  qed
qed

lemma singleSpaced_collapse: "singleSpaced s \<Longrightarrow> collapse s = s"
proof (induction s rule: singleSpaced.induct)
  case (3 a b cs)
  then show ?case by (cases "isSpace a") auto
qed auto

lemma singleSpaced_last: "singleSpaced s \<Longrightarrow> s \<noteq> [] \<Longrightarrow> \<not> isSpace (last s)"
  by (induction s rule: singleSpaced.induct) auto

lemma trim_fixed: "s = [] \<or> (\<not> isSpace (hd s) \<and> \<not> isSpace (last s)) \<Longrightarrow> trim s = s"
proof (cases s)
  case Nil
  then show ?thesis by (simp add: trim_def trimStart_def trimEnd_def)
next
  case (Cons c cs)
  assume "s = [] \<or> (\<not> isSpace (hd s) \<and> \<not> isSpace (last s))"
  with Cons have h: "\<not> isSpace c" and l: "\<not> isSpace (last s)" by auto
  from h Cons have 1: "dropWhile isSpace s = s" by simp
  from Cons have ne: "s \<noteq> []" by simp
  have 2: "dropWhile isSpace (rev s) = rev s"
    unfolding dropWhile_eq_self_iff using l hd_rev[of s] by simp
  show ?thesis by (simp add: trim_def trimStart_def trimEnd_def 1 2)
qed

lemma tidy_fixed: "tidy s \<Longrightarrow> trim (collapse s) = s"
  by (auto simp: tidy_def singleSpaced_collapse intro!: trim_fixed dest: singleSpaced_last)

lemma stripParens_fixed: "\<not> test parenRx s \<Longrightarrow> stripParens s = s"
  by (subst stripParens.simps)
     (simp add: stripParensOnce_def replaceAll_def replace_g_no_match test_def)

lemma strip_plain:
  assumes "\<not> test tagRx s" "\<not> test braceRx s" "\<not> test semiRx s" "\<not> test parenRx s"
  shows "stripPgnMetadata s = trim (collapse s)"
proof (cases "s = []")
  case True
  then show ?thesis by (simp add: stripPgnMetadata_def trim_def trimStart_def trimEnd_def)
next
  case False
  have sp: "replaceAll (Plus space) (js '' '') s = collapse s"
    by (simp add: replaceAll_def js_def replace_spaces)
  from assms False show ?thesis
    by (simp add: stripPgnMetadata_def replaceAll_def replace_g_no_match test_def
        stripParens_fixed sp[unfolded replaceAll_def])
qed

lemma no_openers:
  assumes "\<forall>c\<in>set s. c \<notin> set (js ''[{;('')"
  shows "\<not> test tagRx s \<and> \<not> test braceRx s \<and> \<not> test semiRx s \<and> \<not> test parenRx s"
  using assms unfolding test_def
  by (intro conjI search_none) (auto simp: tagRx_def braceRx_def semiRx_def parenRx_def ch_def js_def)

text \<open>
  C7 (as the code has it). \<^verbatim>\<open>stripPgnMetadata\<close> is a total function: its loop ends
  because a pass that changes the text shortens it (the termination proof of
  \<open>stripParens\<close>). For every input in which none of the four patterns (tag, brace
  comment, semicolon comment, parenthesis) finds a match, it returns the input with every
  run of white space replaced by one space and the white space at both ends removed; it
  returns the input unchanged when, in addition, the white space of the input is single
  spaces between other code units. An input without the code units \<^verbatim>\<open>[ { ; (\<close> is such
  an input.
\<close>

theorem strip_without_constructs:
  "(\<not> test tagRx s \<and> \<not> test braceRx s \<and> \<not> test semiRx s \<and> \<not> test parenRx s
      \<longrightarrow> stripPgnMetadata s = trim (collapse s) \<and> (tidy s \<longrightarrow> stripPgnMetadata s = s))
   \<and> ((\<forall>c\<in>set s. c \<notin> set (js ''[{;(''))
      \<longrightarrow> \<not> test tagRx s \<and> \<not> test braceRx s \<and> \<not> test semiRx s \<and> \<not> test parenRx s)"
  using strip_plain[of s] tidy_fixed[of s] no_openers[of s] by auto

theorem strip_without_constructs_witness:
  "\<not> test tagRx (js ''1. e4 e5'') \<and> \<not> test braceRx (js ''1. e4 e5'')
   \<and> \<not> test semiRx (js ''1. e4 e5'') \<and> \<not> test parenRx (js ''1. e4 e5'')
   \<and> tidy (js ''1. e4 e5'')
   \<and> stripPgnMetadata (js ''1. e4 e5'') = trim (collapse (js ''1. e4 e5''))
   \<and> stripPgnMetadata (js ''1. e4 e5'') = js ''1. e4 e5''"
proof -
  have t: "tidy (js ''1. e4 e5'')" by (simp add: tidy_def js_def isSpace_def)
  have o: "\<forall>c\<in>set (js ''1. e4 e5''). c \<notin> set (js ''[{;('')" by (simp add: js_def)
  from strip_without_constructs[of "js ''1. e4 e5''"] t o show ?thesis by blast
qed

text \<open>
  The claim as the specification states it (the input is returned unchanged) fails on a
  text with two spaces in a row.
\<close>

theorem strip_spaces_counterexample:
  "\<not> test tagRx (js ''e4  e5'') \<and> \<not> test braceRx (js ''e4  e5'')
   \<and> \<not> test semiRx (js ''e4  e5'') \<and> \<not> test parenRx (js ''e4  e5'')
   \<and> stripPgnMetadata (js ''e4  e5'') = js ''e4 e5''
   \<and> stripPgnMetadata (js ''e4  e5'') \<noteq> js ''e4  e5''"
  by (simp add: rx_ev norm_ev)


subsection \<open>Castling spellings\<close>

lemma lastOpt_simps [simp]: "lastOpt p [] = p" "lastOpt p (c # cs) = lastOpt (Some c) cs"
  by (simp_all add: lastOpt_def)




























subsection \<open>Normalizing twice\<close>













subsection \<open>The move validator\<close>

text \<open>
  A pattern without anchors, word boundaries and repetition ends exactly after the words of its
  language; an anchored pattern therefore tests membership of the whole subject.
\<close>

lemma lastOpt_append: "lastOpt (lastOpt p u) v = lastOpt p (u @ v)"
  by (simp add: lastOpt_def)

lemma ends_plain:
  "plain r \<Longrightarrow> set (ends r (p, s)) = {(lastOpt p u, v) | u v. s = u @ v \<and> u \<in> lang r}"
proof (induction r arbitrary: p s)
  case (Cls P)
  show ?case by (cases s) (auto simp: lastOpt_def)
next
  case Eps
  show ?case by (auto simp: lastOpt_def)
next
  case (Seq a b)
  then have a: "\<And>p s. set (ends a (p, s)) = {(lastOpt p u, v) | u v. s = u @ v \<and> u \<in> lang a}"
    and b: "\<And>p s. set (ends b (p, s)) = {(lastOpt p u, v) | u v. s = u @ v \<and> u \<in> lang b}"
    by simp_all
  show ?case
  proof (rule set_eqI, rule iffI)
    fix e assume "e \<in> set (ends (Seq a b) (p, s))"
    then obtain m where m: "m \<in> set (ends a (p, s))" and e: "e \<in> set (ends b m)" by auto
    from m a obtain u v where uv: "m = (lastOpt p u, v)" "s = u @ v" "u \<in> lang a" by blast
    from e b[of "lastOpt p u" v] uv(1) obtain u' v' where
      uv': "e = (lastOpt (lastOpt p u) u', v')" "v = u' @ v'" "u' \<in> lang b" by blast
    have "e = (lastOpt p (u @ u'), v')" "s = (u @ u') @ v'" "u @ u' \<in> lang (Seq a b)"
      using uv uv' by (auto simp: lastOpt_append cat_def)
    then show "e \<in> {(lastOpt p u, v) | u v. s = u @ v \<and> u \<in> lang (Seq a b)}" by blast
  next
    fix e assume "e \<in> {(lastOpt p u, v) | u v. s = u @ v \<and> u \<in> lang (Seq a b)}"
    then obtain w v where w: "e = (lastOpt p w, v)" "s = w @ v" "w \<in> lang (Seq a b)" by blast
    then obtain u u' where u: "w = u @ u'" "u \<in> lang a" "u' \<in> lang b" by (auto simp: cat_def)
    have 1: "(lastOpt p u, u' @ v) \<in> set (ends a (p, s))"
      unfolding a using w(2) u by auto
    have 2: "e \<in> set (ends b (lastOpt p u, u' @ v))"
      unfolding b using w(1) u by (auto simp: lastOpt_append)
    from 1 2 show "e \<in> set (ends (Seq a b) (p, s))" by auto
  qed
next
  case (Alt a b)
  then show ?case by auto
next
  case (Opt a)
  then have a: "\<And>p s. set (ends a (p, s)) = {(lastOpt p u, v) | u v. s = u @ v \<and> u \<in> lang a}"
    by simp
  show ?case
  proof (rule set_eqI, rule iffI)
    fix e assume "e \<in> set (ends (Opt a) (p, s))"
    then consider "e = (p, s)" | "e \<in> set (ends a (p, s))" by auto
    then show "e \<in> {(lastOpt p u, v) | u v. s = u @ v \<and> u \<in> lang (Opt a)}"
    proof cases
      case 1
      then have "e = (lastOpt p [], s)" "s = [] @ s" "[] \<in> lang (Opt a)" by simp_all
      then show ?thesis by blast
    next
      case 2
      with a show ?thesis by auto
    qed
  next
    fix e assume "e \<in> {(lastOpt p u, v) | u v. s = u @ v \<and> u \<in> lang (Opt a)}"
    then obtain u v where u: "e = (lastOpt p u, v)" "s = u @ v" "u = [] \<or> u \<in> lang a" by auto
    show "e \<in> set (ends (Opt a) (p, s))"
    proof (cases "u = []")
      case True
      with u show ?thesis by simp
    next
      case False
      with u have "u \<in> lang a" by simp
      with u have "e \<in> set (ends a (p, s))" unfolding a by blast
      moreover have "length (snd e) < length s" using u False by simp
      ultimately show ?thesis by simp
    qed
  qed
qed simp_all

lemma whole_Eol: "whole Eol {[]}"
  by (simp add: whole_def)

lemma whole_Seq: "plain a \<Longrightarrow> whole b L \<Longrightarrow> whole (Seq a b) (cat (lang a) L)"
proof -
  assume a: "plain a" and b: "whole b L"
  show ?thesis
    unfolding whole_def
  proof (intro allI)
    fix q v
    have "(ends (Seq a b) (q, v) \<noteq> []) = (\<exists>m\<in>set (ends a (q, v)). ends b m \<noteq> [])"
      by auto
    also have "\<dots> = (\<exists>u w. v = u @ w \<and> u \<in> lang a \<and> ends b (lastOpt q u, w) \<noteq> [])"
      unfolding ends_plain[OF a] by blast
    also have "\<dots> = (\<exists>u w. v = u @ w \<and> u \<in> lang a \<and> w \<in> L)"
      using b by (simp add: whole_def)
    also have "\<dots> = (v \<in> cat (lang a) L)" by (auto simp: cat_def)
    finally show "(ends (Seq a b) (q, v) \<noteq> []) = (v \<in> cat (lang a) L)" .
  qed
qed

lemma search_Bol: "\<not> search (Seq Bol R) (Some c) s"
  by (induction s arbitrary: c) (simp_all add: match_at_def)

lemma test_anchored: "test (Seq Bol R) s = (ends R (None, s) \<noteq> [])"
  by (cases s) (auto simp: test_def match_at_def search_Bol split: list.splits)

lemma test_whole: "whole R L \<Longrightarrow> test (Seq Bol R) s = (s \<in> L)"
  by (simp add: test_anchored whole_def)

lemma replaceAll_Cls_del: "replaceAll (Cls P) [] s = filter (\<lambda>c. \<not> P c) s"
proof -
  have "replace_g (Cls P) (\<lambda>_. []) p s = filter (\<lambda>c. \<not> P c) s" for p
    by (induction s arbitrary: p) (auto simp: match_at_def)
  then show ?thesis by (simp add: replaceAll_def)
qed

lemma ci_O: "ci 79 c = isO c" "ci 45 c = (c = 45)"
  by (auto simp: ci_def isO_def isUpper_def isLower_def)

lemma in_cat: "(s \<in> cat A B) = (\<exists>u v. s = u @ v \<and> u \<in> A \<and> v \<in> B)"
  by (auto simp: cat_def)

lemma in_cat_char: "(s \<in> cat {[c] |c. P c} L) = (\<exists>c t. s = c # t \<and> P c \<and> t \<in> L)"
proof
  assume "s \<in> cat {[c] |c. P c} L"
  then obtain u v where "s = u @ v" "u \<in> {[c] |c. P c}" "v \<in> L" by (auto simp: cat_def)
  then show "\<exists>c t. s = c # t \<and> P c \<and> t \<in> L" by auto
next
  assume "\<exists>c t. s = c # t \<and> P c \<and> t \<in> L"
  then obtain c t where "s = [c] @ t" "P c" "t \<in> L" by auto
  then have "\<exists>u v. s = u @ v \<and> u \<in> {[c] |c. P c} \<and> v \<in> L" by blast
  then show "s \<in> cat {[c] |c. P c} L" by (simp add: in_cat)
qed

lemma in_cat_single: "(s \<in> cat {[d]} L) = (\<exists>t. s = d # t \<and> t \<in> L)"
  using in_cat_char[of s "\<lambda>c. c = d" L] by simp

lemma cat_empty: "cat A {[]} = A"
  by (auto simp: cat_def)

lemma castling_test: "test castlingRx s = castlingCI s"
proof -
  let ?A = "Alt (liti ''O-O-O'') (liti ''O-O'')"
  have p: "plain ?A" by (simp add: liti_def chi_def)
  have w: "whole (Seq ?A Eol) (cat (lang ?A) {[]})"
    by (rule whole_Seq[OF p whole_Eol])
  have "test castlingRx s = (s \<in> lang ?A)"
    unfolding castlingRx_def using test_whole[OF w] by (simp add: cat_empty)
  also have "\<dots> = ((\<exists>a b c. s = [a, 45, b, 45, c] \<and> isO a \<and> isO b \<and> isO c)
                 \<or> (\<exists>a b. s = [a, 45, b] \<and> isO a \<and> isO b))"
    by (simp add: liti_def chi_def ci_O in_cat_char in_cat_single) blast
  also have "\<dots> = castlingCI s" by (auto simp: castlingCI_def)
  finally show ?thesis .
qed

lemma match_nonempty: "(match_at r p s \<noteq> None) = (ends r (p, s) \<noteq> [])"
  by (simp add: match_at_def split: list.splits)

lemma square_search:
  "search (Seq (Cls F) (Cls R)) p s = (\<exists>u f r v. s = u @ f # r # v \<and> F f \<and> R r)"
proof (induction s arbitrary: p)
  case Nil
  show ?case by (simp add: match_at_def)
next
  case (Cons c cs)
  have m: "(match_at (Seq (Cls F) (Cls R)) p (c # cs) \<noteq> None) = (F c \<and> (\<exists>r v. cs = r # v \<and> R r))"
    by (cases cs) (auto simp: match_at_def)
  show ?case
  proof
    assume "search (Seq (Cls F) (Cls R)) p (c # cs)"
    then consider "F c \<and> (\<exists>r v. cs = r # v \<and> R r)" | "search (Seq (Cls F) (Cls R)) (Some c) cs"
      using m by auto
    then show "\<exists>u f r v. c # cs = u @ f # r # v \<and> F f \<and> R r"
    proof cases
      case 1
      then obtain r v where "cs = r # v" "R r" "F c" by blast
      then have "c # cs = [] @ c # r # v \<and> F c \<and> R r" by simp
      then show ?thesis by blast
    next
      case 2
      with Cons.IH obtain u f r v where "cs = u @ f # r # v" "F f" "R r" by blast
      then have "c # cs = (c # u) @ f # r # v \<and> F f \<and> R r" by simp
      then show ?thesis by blast
    qed
  next
    assume "\<exists>u f r v. c # cs = u @ f # r # v \<and> F f \<and> R r"
    then obtain u f r v where u: "c # cs = u @ f # r # v" "F f" "R r" by blast
    show "search (Seq (Cls F) (Cls R)) p (c # cs)"
    proof (cases u)
      case Nil
      with u have "F c \<and> (\<exists>r v. cs = r # v \<and> R r)" by auto
      with m show ?thesis by simp
    next
      case (Cons d u')
      with u have "cs = u' @ f # r # v" by simp
      with u Cons.IH have "search (Seq (Cls F) (Cls R)) (Some c) cs" by blast
      then show ?thesis by simp
    qed
  qed
qed

lemma square_test: "test squareRx s = hasSquare s"
  unfolding test_def squareRx_def between_def square_search hasSquare_def isFile_def isRank_def
  by simp

lemma piece_class: "list_ex (\<lambda>m. ci m c) (js ''NBRQK'') = isPieceCI c"
  by (auto simp: js_def ci_def isPieceCI_def isUpper_def isLower_def)

lemma promotion_class: "list_ex (\<lambda>m. ci m c) (js ''NBRQ'') = isPromotionCI c"
  by (auto simp: js_def ci_def isPromotionCI_def isUpper_def isLower_def)

lemma file_class:
  "((97 \<le> c \<and> c \<le> 104) \<or> (65 \<le> c \<and> c \<le> 72 \<and> isUpper c)) = isFileCI c"
  by (auto simp: isFileCI_def isFile_def isUpper_def)

lemma rank_class: "(49 \<le> c \<and> c \<le> 56) = isRank c"
  by (simp add: isRank_def)

lemma capture_class: "ci 120 = isCaptureCI"
  by (auto simp: fun_eq_iff ci_def isCaptureCI_def isUpper_def isLower_def)

lemma lang_opt_class: "lang (Opt (Cls P)) = {s. opt1 P s}"
  by (auto simp: opt1_def)

lemma pattern_test: "test validPattern s = (s \<in> shapeLang)"
proof -
  let ?A1 = "Opt (oneOfi (js ''NBRQK''))" and ?A2 = "Opt (betweeni CHR ''a'' CHR ''h'')"
  and ?A3 = "Opt (between CHR ''1'' CHR ''8'')" and ?A4 = "Opt (chi (of_char CHR ''x''))"
  and ?A5 = "betweeni CHR ''a'' CHR ''h''" and ?A6 = "between CHR ''1'' CHR ''8''"
  and ?A7 = "Opt (Seq (ch CHR ''='') (oneOfi (js ''NBRQ'')))"
  have p: "plain ?A1" "plain ?A2" "plain ?A3" "plain ?A4" "plain ?A5" "plain ?A6" "plain ?A7"
    by (simp_all add: oneOfi_def betweeni_def between_def chi_def ch_def)
  have w: "whole (Seq ?A1 (Seq ?A2 (Seq ?A3 (Seq ?A4 (Seq ?A5 (Seq ?A6 (Seq ?A7 Eol)))))))
             (cat (lang ?A1) (cat (lang ?A2) (cat (lang ?A3) (cat (lang ?A4) (cat (lang ?A5)
               (cat (lang ?A6) (cat (lang ?A7) {[]})))))))"
    by (intro whole_Seq p whole_Eol)
  have l: "lang ?A1 = {s. opt1 isPieceCI s}" "lang ?A2 = {s. opt1 isFileCI s}"
    "lang ?A3 = {s. opt1 isRank s}" "lang ?A4 = {s. opt1 isCaptureCI s}"
    "lang ?A5 = {[c] |c. isFileCI c}" "lang ?A6 = {[c] |c. isRank c}"
    "lang ?A7 = insert [] (cat {[61]} {[c] |c. isPromotionCI c})"
    unfolding oneOfi_def betweeni_def between_def chi_def ch_def lang_opt_class
    by (simp_all add: piece_class file_class rank_class capture_class promotion_class)
  show ?thesis
    unfolding validPattern_def shapeLang_def seqs.simps
    using test_whole[OF w] unfolding l cat_empty by simp
qed

lemma shape_lang: "(s \<in> shapeLang) = moveShape s"
proof -
  let ?L7 = "insert [] (cat {[61]} {[c] |c. isPromotionCI c})"
  let ?L6 = "cat {[c] |c. isRank c} ?L7"
  let ?L5 = "cat {[c] |c. isFileCI c} ?L6"
  let ?L4 = "cat {s. opt1 isCaptureCI s} ?L5"
  let ?L3 = "cat {s. opt1 isRank s} ?L4"
  let ?L2 = "cat {s. opt1 isFileCI s} ?L3"
  have L1: "shapeLang = cat {s. opt1 isPieceCI s} ?L2"
    by (simp add: shapeLang_def)
  have L7: "\<And>pr. (pr \<in> ?L7) = (pr = [] \<or> (\<exists>c. pr = [61, c] \<and> isPromotionCI c))"
    by (auto simp: in_cat_single)
  show ?thesis
  proof
    assume "s \<in> shapeLang"
    then obtain pc v1 where 1: "s = pc @ v1" "opt1 isPieceCI pc" "v1 \<in> ?L2"
      unfolding L1 in_cat[of s] by blast
    then obtain fl v2 where 2: "v1 = fl @ v2" "opt1 isFileCI fl" "v2 \<in> ?L3"
      unfolding in_cat[of v1] by blast
    then obtain rk v3 where 3: "v2 = rk @ v3" "opt1 isRank rk" "v3 \<in> ?L4"
      unfolding in_cat[of v2] by blast
    then obtain cap v4 where 4: "v3 = cap @ v4" "opt1 isCaptureCI cap" "v4 \<in> ?L5"
      unfolding in_cat[of v3] by blast
    then obtain f v5 where 5: "v4 = f # v5" "isFileCI f" "v5 \<in> ?L6"
      unfolding in_cat_char[of v4] by blast
    then obtain r pr where 6: "v5 = r # pr" "isRank r" "pr \<in> ?L7"
      unfolding in_cat_char[of v5] by blast
    from 6(3) have 7: "pr = [] \<or> (\<exists>c. pr = [61, c] \<and> isPromotionCI c)"
      unfolding L7 .
    have "s = pc @ fl @ rk @ cap @ [f, r] @ pr"
      using 1(1) 2(1) 3(1) 4(1) 5(1) 6(1) by simp
    with 1(2) 2(2) 3(2) 4(2) 5(2) 6(2) 7 show "moveShape s"
      unfolding moveShape_def by blast
  next
    assume "moveShape s"
    then obtain pc fl rk cap f r pr where m: "s = pc @ fl @ rk @ cap @ [f, r] @ pr"
        "opt1 isPieceCI pc" "opt1 isFileCI fl" "opt1 isRank rk" "opt1 isCaptureCI cap"
        "isFileCI f" "isRank r" "pr = [] \<or> (\<exists>c. pr = [61, c] \<and> isPromotionCI c)"
      unfolding moveShape_def by blast
    from m(8) have 7: "pr \<in> ?L7"
      unfolding L7 .
    with m(7) have 6: "r # pr \<in> ?L6"
      unfolding in_cat_char[of "r # pr"] by blast
    with m(6) have 5: "f # r # pr \<in> ?L5"
      unfolding in_cat_char[of "f # r # pr"] by blast
    with m(5) have 4: "cap @ f # r # pr \<in> ?L4"
      unfolding in_cat[of "cap @ f # r # pr"] by blast
    with m(4) have 3: "rk @ cap @ f # r # pr \<in> ?L3"
      unfolding in_cat[of "rk @ cap @ f # r # pr"] by blast
    with m(3) have 2: "fl @ rk @ cap @ f # r # pr \<in> ?L2"
      unfolding in_cat[of "fl @ rk @ cap @ f # r # pr"] by blast
    with m(2) have "pc @ fl @ rk @ cap @ f # r # pr \<in> shapeLang"
      unfolding L1 in_cat[of "pc @ fl @ rk @ cap @ f # r # pr"] by blast
    with m(1) show "s \<in> shapeLang" by simp
  qed
qed


text \<open>
  C3 (as the code has it): \<^verbatim>\<open>isValidMove\<close> is true exactly for the tokens of at least two
  code units which, once every mark \<^verbatim>\<open>+ # ? !\<close> is deleted wherever it stands, the result
  trimmed and the castling spellings normalized, are \<^verbatim>\<open>O-O\<close> or \<^verbatim>\<open>O-O-O\<close> in either
  letter case, or contain a lower-case file letter directly followed by a rank digit and have
  the shape \<^verbatim>\<open>[piece]?[file]?[rank]?x?[file][rank](=promotion)?\<close> in which the piece letter,
  both file letters, the capture letter and the promotion letter are read in either case.
  In particular it is false for every token shorter than two code units, and for every token
  that is not castling and has no lower-case file followed by a rank.
\<close>

theorem valid_move_shape:
  "isValidMove m =
     (let t = normalizeCastling (trim (stripMarks m))
      in 2 \<le> length m \<and> (castlingCI t \<or> (hasSquare t \<and> moveShape t)))"
proof -
  have s: "replaceAll (oneOf ''+#?!'') [] m = stripMarks m"
    by (simp add: oneOf_def replaceAll_Cls_del stripMarks_def)
  show ?thesis
    unfolding isValidMove_def s Let_def castling_test square_test pattern_test shape_lang
    by auto
qed


lemma bare_Nf3: "normalizeCastling (trim (stripMarks (js ''Nf3+''))) = js ''Nf3''"
  by (simp add: rx_ev norm_ev stripMarks_def)

lemma Nf3_not_castling: "\<not> castlingCI (js ''Nf3'')"
  by (simp add: castlingCI_def js_def)

lemma Nf3_valid: "isValidMove (js ''Nf3+'')"
  by (simp add: rx_ev norm_ev isValidMove_def castlingRx_def squareRx_def validPattern_def)


text \<open>The characterisation at the token \<^verbatim>\<open>Nf3+\<close>.\<close>

theorem valid_move_shape_witness:
  "isValidMove (js ''Nf3+'') \<and> hasSquare (js ''Nf3'') \<and> moveShape (js ''Nf3'')"
  using valid_move_shape[of "js ''Nf3+''"] Nf3_valid Nf3_not_castling
  unfolding Let_def bare_Nf3 by blast


text \<open>
  C3 (as the specification has it) reads the pattern case-insensitively on the piece letter
  only and allows the marks at the end only. The code accepts \<^verbatim>\<open>E2e4\<close>, \<^verbatim>\<open>e2E4\<close>,
  \<^verbatim>\<open>e8=q\<close>, \<^verbatim>\<open>Xe4\<close>, \<^verbatim>\<open>e+4\<close> and \<^verbatim>\<open>++e4\<close>.
\<close>

theorem valid_move_case_counterexample:
  "isValidMove (js ''E2e4'') \<and> isValidMove (js ''e2E4'') \<and> isValidMove (js ''e8=q'')
   \<and> isValidMove (js ''Xe4'') \<and> isValidMove (js ''e+4'') \<and> isValidMove (js ''++e4'')"
  by (simp add: rx_ev norm_ev isValidMove_def castlingRx_def squareRx_def validPattern_def)

end
